theory Spec2Isabelle
  imports Complex_Main "HOL-Library.Multiset" "HOL-Library.Char_ord" "HOL-Library.List_Lexorder"
begin

section \<open>Python values: errors, list indexing, number strings\<close>

text \<open>
  The exceptions the script can raise: a missing dictionary key, an index outside a
  list, a division by zero and \<open>int\<close> applied to a string that is no number.
\<close>

datatype error = KeyError | IndexError | ZeroDivisionError | ValueError

text \<open>
  The subscript \<open>xs[i]\<close> of a Python list: the positions \<open>0\<close> to \<open>len(xs) - 1\<close> read
  from the front, the positions \<open>-1\<close> down to \<open>-len(xs)\<close> read from the back, and every
  other position is an \<open>IndexError\<close>.
\<close>

definition py_get :: "'a list \<Rightarrow> int \<Rightarrow> error + 'a" where
  "py_get xs i =
     (if 0 \<le> i \<and> i < int (length xs) then Inr (xs ! nat i)
      else if i < 0 \<and> - int (length xs) \<le> i then Inr (xs ! nat (int (length xs) + i))
      else Inl IndexError)"

text \<open>\<open>f"{n}"\<close> for an integer: its decimal digits, with a leading minus sign when negative.\<close>

function str_nat :: "nat \<Rightarrow> string" where
  "str_nat n = (if n < 10 then [''0123456789'' ! n] else str_nat (n div 10) @ [''0123456789'' ! (n mod 10)])"
  by pat_completeness auto
termination
  by (relation "measure (\<lambda>n. n)") auto

definition str :: "int \<Rightarrow> string" where
  "str n = (if n < 0 then CHR ''-'' # str_nat (nat (- n)) else str_nat (nat n))"

text \<open>
  An expression is a list of strings, each one either \<open>f"{n}"\<close> for an integer \<open>n\<close> or
  an operator or parenthesis. \<open>Lit n\<close> stands for the string \<open>f"{n}"\<close> and \<open>Sym s\<close> for
  the literal string \<open>s\<close>; \<open>render\<close> gives the string back, and \<open>int_of\<close> is Python's
  \<open>int\<close> on such a string.
\<close>

datatype token = Lit int | Sym string

fun render :: "token \<Rightarrow> string" where
  "render (Lit n) = str n"
| "render (Sym s) = s"

fun int_of :: "token \<Rightarrow> error + int" where
  "int_of (Lit n) = Inr n"
| "int_of (Sym s) = Inl ValueError"

text \<open>\<open>"".join(reversed(expression))\<close>\<close>

definition join_reversed :: "token list \<Rightarrow> string" where
  "join_reversed expression = concat (map render (rev expression))"

section \<open>Constants and precomputed tables\<close>

definition PRIMES :: "int list" where
  "PRIMES = [1, 2, 3, 5, 7, 11, 13, 17, 19, 23, 29, 31, 37, 41,
             43, 47, 53, 59, 61, 67, 71, 73, 79, 83, 89, 97]"

definition MIN_NON_DECOMPOSABLE :: int where
  "MIN_NON_DECOMPOSABLE = 269"

text \<open>
  \<open>NUMBERS\<close> is a Python set of the integers 1 to 268. A set of small non-negative
  integers is iterated in increasing order (each integer is its own hash and the table
  is larger than every element), so the set is kept as the increasing list.
\<close>

definition NUMBERS :: "int list" where
  "NUMBERS = [1 .. MIN_NON_DECOMPOSABLE - 1]"

text \<open>
  The dictionary comprehension of \<open>CROSS_PRODUCTS\<close>: a later pair with the same product
  replaces an earlier one.
\<close>

definition CROSS_PRODUCTS :: "int \<rightharpoonup> int \<times> int" where
  "CROSS_PRODUCTS =
     fold (\<lambda>(p, q) m. m(p * q \<mapsto> (p, q)))
       [(p, q). p \<leftarrow> PRIMES, q \<leftarrow> PRIMES, p > 1 \<and> q > 1 \<and> p * q < MIN_NON_DECOMPOSABLE]
       Map.empty"

definition NUM :: int where "NUM = 3"
definition DEN :: int where "DEN = 1"

text \<open>
  \<open>get_unreachable_numbers\<close>: for every prime \<open>p\<close> the numbers of \<open>NUMBERS\<close> that are
  neither one of the other primes nor a sum, a difference or a product of two of them.
  The dictionary is kept as the list of its items.
\<close>

definition unreachable_without :: "int \<Rightarrow> int list" where
  "unreachable_without p =
     (let primes = [q \<leftarrow> PRIMES. q \<noteq> p];
          sums_set = set [x + y. x \<leftarrow> primes, y \<leftarrow> primes];
          diff_set = set [x - y. x \<leftarrow> primes, y \<leftarrow> primes];
          prod_set = set [x * y. x \<leftarrow> primes, y \<leftarrow> primes];
          all_sets = sums_set \<union> diff_set \<union> prod_set \<union> set primes
      in [x \<leftarrow> NUMBERS. x \<notin> all_sets])"

definition get_unreachable_numbers :: "(int \<times> int list) list" where
  "get_unreachable_numbers = map (\<lambda>p. (p, unreachable_without p)) PRIMES"

definition UNREACHABLE :: "int \<rightharpoonup> int list" where
  "UNREACHABLE = map_of get_unreachable_numbers"

section \<open>Decomposition of small numbers\<close>

text \<open>
  \<open>decompose2\<close>: the cross product first, then the scan \<open>for p in primes\<close>. The set of
  usable primes is iterated in increasing order and is kept as the increasing list.
\<close>

fun decompose2_scan :: "int \<Rightarrow> int list \<Rightarrow> int list \<Rightarrow> token list" where
  "decompose2_scan n primes [] = []"
| "decompose2_scan n primes (p # ps) =
     (if p < n then
        (let q = n - p in
         if q \<in> set primes then [Lit q, Sym ''+'', Lit p] else decompose2_scan n primes ps)
      else
        (let q = p - n in
         if q \<in> set primes then [Lit q, Sym ''-'', Lit p] else decompose2_scan n primes ps))"

definition decompose2 :: "int \<Rightarrow> int list \<Rightarrow> token list" where
  "decompose2 n primes =
     (let (p, q) = (case CROSS_PRODUCTS n of None \<Rightarrow> (0, 0) | Some pq \<Rightarrow> pq) in
      if p \<in> set primes \<and> q \<in> set primes then [Lit q, Sym ''*'', Lit p]
      else decompose2_scan n primes primes)"

text \<open>\<open>decompose3\<close>: the scan \<open>for x in NUMBERS.difference(unreachable)\<close>, in increasing order.\<close>

fun decompose3_scan :: "int \<Rightarrow> int list \<Rightarrow> int list \<Rightarrow> token list" where
  "decompose3_scan n primes [] = []"
| "decompose3_scan n primes (x # xs) =
     (if x < n then
        (let q = n - x in
         if q \<in> set primes then [Lit q, Sym ''+''] @ decompose2 x primes
         else decompose3_scan n primes xs)
      else
        (let q = x - n in
         if q \<in> set primes then [Lit q, Sym ''-''] @ decompose2 x primes
         else decompose3_scan n primes xs))"

definition decompose3 :: "int \<Rightarrow> int list \<Rightarrow> int list \<Rightarrow> token list" where
  "decompose3 n primes unreachable =
     decompose3_scan n primes [x \<leftarrow> NUMBERS. x \<notin> set unreachable]"

definition decompose :: "int \<Rightarrow> int list \<Rightarrow> int list \<Rightarrow> token list \<times> int" where
  "decompose n primes unreachable =
     (if n \<notin> set unreachable then (decompose2 n primes, 2)
      else (decompose3 n primes unreachable, 3))"

section \<open>The heap queue\<close>

text \<open>
  Python's \<open>heapq\<close> on a list, for an element type whose \<open>__lt__\<close> is \<open>lt\<close>:
  \<open>heappush\<close> appends and sifts the new item towards the root, \<open>heappop\<close> moves the
  last item to the root and sifts it (\<open>_siftup\<close> walks the smaller child up to a leaf,
  then \<open>_siftdown\<close> places the item).
\<close>

function siftdown_loop :: "('a \<Rightarrow> 'a \<Rightarrow> bool) \<Rightarrow> 'a list \<Rightarrow> 'a \<Rightarrow> nat \<Rightarrow> nat \<Rightarrow> 'a list" where
  "siftdown_loop lt heap newitem startpos pos =
     (if pos > startpos then
        (let parentpos = (pos - 1) div 2; parent = heap ! parentpos in
         if lt newitem parent then siftdown_loop lt (heap[pos := parent]) newitem startpos parentpos
         else heap[pos := newitem])
      else heap[pos := newitem])"
  by pat_completeness auto
termination
  by (relation "measure (\<lambda>(lt, heap, newitem, startpos, pos). pos)") auto

declare siftdown_loop.simps [simp del]

definition siftdown :: "('a \<Rightarrow> 'a \<Rightarrow> bool) \<Rightarrow> 'a list \<Rightarrow> nat \<Rightarrow> nat \<Rightarrow> 'a list" where
  "siftdown lt heap startpos pos = siftdown_loop lt heap (heap ! pos) startpos pos"

function siftup_loop :: "('a \<Rightarrow> 'a \<Rightarrow> bool) \<Rightarrow> 'a list \<Rightarrow> nat \<Rightarrow> nat \<Rightarrow> nat \<Rightarrow> 'a list \<times> nat" where
  "siftup_loop lt heap endpos pos childpos =
     (if childpos < endpos then
        (let rightpos = childpos + 1;
             childpos' = (if rightpos < endpos \<and> \<not> lt (heap ! childpos) (heap ! rightpos)
                          then rightpos else childpos)
         in siftup_loop lt (heap[pos := heap ! childpos']) endpos childpos' (2 * childpos' + 1))
      else (heap, pos))"
  by pat_completeness auto
termination
  by (relation "measure (\<lambda>(lt, heap, endpos, pos, childpos). endpos - childpos)") auto

declare siftup_loop.simps [simp del]

definition siftup :: "('a \<Rightarrow> 'a \<Rightarrow> bool) \<Rightarrow> 'a list \<Rightarrow> nat \<Rightarrow> 'a list" where
  "siftup lt heap pos =
     (let endpos = length heap; startpos = pos; newitem = heap ! pos;
          (heap', pos') = siftup_loop lt heap endpos pos (2 * pos + 1)
      in siftdown lt (heap'[pos' := newitem]) startpos pos')"

definition heappush :: "('a \<Rightarrow> 'a \<Rightarrow> bool) \<Rightarrow> 'a list \<Rightarrow> 'a \<Rightarrow> 'a list" where
  "heappush lt heap item = siftdown lt (heap @ [item]) 0 (length heap)"

definition heappop :: "('a \<Rightarrow> 'a \<Rightarrow> bool) \<Rightarrow> 'a list \<Rightarrow> error + ('a \<times> 'a list)" where
  "heappop lt heap =
     (if heap = [] then Inl IndexError
      else (let lastelt = last heap; heap' = butlast heap in
            if heap' \<noteq> [] then Inr (hd heap', siftup lt (heap'[0 := lastelt]) 0)
            else Inr (lastelt, [])))"

text \<open>Python compares tuples lexicographically.\<close>

fun tuple_lt :: "int \<times> int \<times> int \<Rightarrow> int \<times> int \<times> int \<Rightarrow> bool" where
  "tuple_lt (a, b, c) (a', b', c') = (a < a' \<or> (a = a' \<and> (b < b' \<or> (b = b' \<and> c < c'))))"

section \<open>Search nodes\<close>

text \<open>The fields \<open>_expression\<close>, \<open>_depth\<close>, \<open>_count\<close> and \<open>_min\<close> of the class \<open>Node\<close>.\<close>

record Node =
  node_expression :: "token list"
  node_depth :: int
  node_count :: int
  node_min :: int

text \<open>
  \<open>Node.__lt__\<close>: the lower bound first, then the last string of the expression (the
  number still to be decomposed), as strings.
\<close>

definition node_lt :: "Node \<Rightarrow> Node \<Rightarrow> bool" where
  "node_lt a b =
     (node_min a < node_min b \<or>
      (node_min a = node_min b \<and>
       render (last (node_expression a)) < render (last (node_expression b))))"

section \<open>The remainders of a division\<close>

text \<open>
  \<open>get_remainders_bound\<close> divides with \<open>/\<close>, so its result is a float; it is only ever
  compared with integers, and the comparison of an integer with the quotient of two small
  integers is the exact one, so the bound is kept as a rational number.
\<close>

definition get_remainders_bound :: "int \<Rightarrow> int \<Rightarrow> int \<Rightarrow> rat" where
  "get_remainders_bound p lower_bound upper_bound =
     (let num = p - hd PRIMES; den = last PRIMES
      in of_int (num * upper_bound + (den - num) * lower_bound) / of_int den)"

type_synonym seen_map = "int \<rightharpoonup> int"
type_synonym remainders_heap = "(int \<times> int \<times> int) list"

text \<open>The body shared by the two loops: record the quotient when it is new or now cheaper.\<close>

definition record_candidate ::
  "int \<Rightarrow> int \<Rightarrow> int \<Rightarrow> seen_map \<times> remainders_heap \<Rightarrow> seen_map \<times> remainders_heap" where
  "record_candidate new_count quot rem sr =
     (case sr of (seen, remainders) \<Rightarrow>
        (if (case seen quot of None \<Rightarrow> True | Some c \<Rightarrow> c > new_count)
         then (seen(quot \<mapsto> new_count), heappush tuple_lt remainders (new_count, quot, rem))
         else (seen, remainders)))"

definition rem_cost :: "int \<Rightarrow> int list \<Rightarrow> int list \<Rightarrow> int" where
  "rem_cost rem prime_set unreachable =
     (if rem \<in> set prime_set then 1 else if rem \<notin> set unreachable then 2 else 3)"

text \<open>The loop \<open>current = quot * p + rem\<close>; it does not end when \<open>p\<close> is not positive.\<close>

partial_function (option) under_loop ::
  "int \<Rightarrow> int \<Rightarrow> rat \<Rightarrow> int list \<Rightarrow> int list \<Rightarrow> seen_map \<times> remainders_heap \<Rightarrow> int \<Rightarrow> int
     \<Rightarrow> (seen_map \<times> remainders_heap) option" where
  "under_loop p cnt bound prime_set unreachable sr quot rem =
     (if of_int rem \<le> bound then
        under_loop p cnt bound prime_set unreachable
          (record_candidate
             (if rem \<noteq> 0 then cnt + rem_cost rem prime_set unreachable else cnt) quot rem sr)
          (quot - 1) (rem + p)
      else Some sr)"

declare under_loop.simps [code]

text \<open>The loop \<open>current = quot * p - rem\<close>.\<close>

partial_function (option) over_loop ::
  "int \<Rightarrow> int \<Rightarrow> rat \<Rightarrow> int list \<Rightarrow> int list \<Rightarrow> seen_map \<times> remainders_heap \<Rightarrow> int \<Rightarrow> int
     \<Rightarrow> (seen_map \<times> remainders_heap) option" where
  "over_loop p cnt bound prime_set unreachable sr quot rem =
     (if of_int rem \<le> bound then
        over_loop p cnt bound prime_set unreachable
          (record_candidate (cnt + rem_cost rem prime_set unreachable) quot rem sr)
          (quot + 1) (rem + p)
      else Some sr)"

declare over_loop.simps [code]

text \<open>
  \<open>get_possible_remainders\<close> returns the heap and updates \<open>seen\<close> in place: the model
  returns both. \<open>None\<close> is a loop that does not end.
\<close>

definition get_possible_remainders ::
  "int \<Rightarrow> int \<Rightarrow> int \<Rightarrow> rat \<Rightarrow> int list \<Rightarrow> seen_map \<Rightarrow> int list
     \<Rightarrow> (error + seen_map \<times> remainders_heap) option" where
  "get_possible_remainders p current cnt bound prime_set seen unreachable =
     (if p = 0 then Some (Inl ZeroDivisionError)
      else
        (case under_loop p cnt bound prime_set unreachable (seen, [])
                (current div p) (current mod p) of
           None \<Rightarrow> None
         | Some sr \<Rightarrow>
             (case over_loop p cnt bound prime_set unreachable sr
                     (current div p + 1) (p - current mod p) of
                None \<Rightarrow> None
              | Some sr' \<Rightarrow> Some (Inr sr'))))"

section \<open>The lower bound\<close>

text \<open>\<open>estimation\<close>: the number of divisions by the largest usable prime.\<close>

partial_function (option) estimation_loop :: "int \<Rightarrow> int \<Rightarrow> int \<Rightarrow> (error + int) option" where
  "estimation_loop max_prime x min_count =
     (if x > max_prime then
        (if max_prime = 0 then Some (Inl ZeroDivisionError)
         else estimation_loop max_prime (x div max_prime) (min_count + 1))
      else Some (Inr min_count))"

declare estimation_loop.simps [code]

definition estimation :: "int \<Rightarrow> int list \<Rightarrow> int \<Rightarrow> (error + int) option" where
  "estimation n primes prime =
     (case py_get primes (- 1) of
        Inl e \<Rightarrow> Some (Inl e)
      | Inr l \<Rightarrow>
          (if prime \<noteq> l then estimation_loop l n 0
           else (case py_get primes (- 2) of
                   Inl e \<Rightarrow> Some (Inl e)
                 | Inr l' \<Rightarrow> estimation_loop l' n 0)))"

section \<open>The greedy solution\<close>

definition py_pop :: "'a list \<Rightarrow> error + ('a \<times> 'a list)" where
  "py_pop xs = (if xs = [] then Inl IndexError else Inr (last xs, butlast xs))"

text \<open>The inner loop \<open>while n < div\<close> of \<open>find_random_solution\<close>: step down to a smaller prime.\<close>

function lower_divisor :: "int \<Rightarrow> int list \<Rightarrow> int \<Rightarrow> int \<Rightarrow> int \<Rightarrow> error + (int \<times> int)" where
  "lower_divisor n primes prime index dv =
     (if n < dv then
        (case py_get primes (index - 1) of
           Inl e \<Rightarrow> Inl e
         | Inr v \<Rightarrow>
             (case py_get primes (if v = prime then index - 2 else index - 1) of
                Inl e \<Rightarrow> Inl e
              | Inr d \<Rightarrow> lower_divisor n primes prime (if v = prime then index - 2 else index - 1) d))
      else Inr (index, dv))"
  by pat_completeness auto
termination
  by (relation "measure (\<lambda>(n, primes, prime, index, dv). nat (index + int (length primes) + 1))")
     (auto simp: py_get_def Let_def split: if_splits)

record random_state =
  rs_expression :: "token list"
  rs_index :: int
  rs_div :: int
  rs_count :: int
  rs_depth :: int

text \<open>
  One round of the loop \<open>while not finished\<close>: the result is the new value of
  \<open>finished\<close> and the new values of the variables.
\<close>

definition random_round ::
  "int list \<Rightarrow> int \<Rightarrow> int list \<Rightarrow> int list \<Rightarrow> random_state \<Rightarrow> error + (bool \<times> random_state)" where
  "random_round primes prime prime_set unreachable s =
     (case py_pop (rs_expression s) of
        Inl e \<Rightarrow> Inl e
      | Inr (tok, expression0) \<Rightarrow>
     (case int_of tok of
        Inl e \<Rightarrow> Inl e
      | Inr n \<Rightarrow>
     (case lower_divisor n primes prime (rs_index s) (rs_div s) of
        Inl e \<Rightarrow> Inl e
      | Inr (index, dv) \<Rightarrow>
          if dv = 0 then Inl ZeroDivisionError
          else
            (let quot = n div dv;
                 rem = n mod dv;
                 expression1 = expression0 @ [Sym '')''];
                 depth = rs_depth s + 1;
                 (expression2, count2) =
                   (if rem \<noteq> 0 then
                      (if rem \<in> set prime_set
                       then (expression1 @ [Lit rem] @ [Sym ''+''], rs_count s + 1)
                       else (expression1 @ [Sym '')''] @ decompose2 rem prime_set @ [Sym ''(''] @ [Sym ''+''],
                             rs_count s + 2))
                    else (expression1, rs_count s));
                 expression3 = expression2 @ [Lit dv];
                 (expression4, count4) =
                   (if quot \<noteq> 1 then (expression3 @ [Sym ''*'', Lit quot], count2 + 1)
                    else (expression3, count2))
             in if quot = 1 \<or> quot \<in> set prime_set then
                  Inr (True, \<lparr>rs_expression = expression4 @ replicate (nat depth) (Sym ''(''),
                             rs_index = index, rs_div = dv, rs_count = count4, rs_depth = depth\<rparr>)
                else if quot < MIN_NON_DECOMPOSABLE then
                  (case decompose quot prime_set unreachable of
                     (expr, extra) \<Rightarrow>
                       Inr (True,
                            \<lparr>rs_expression =
                               butlast expression4 @ [Sym '')''] @ expr @ [Sym ''(''] @
                               replicate (nat depth) (Sym ''(''),
                             rs_index = index, rs_div = dv, rs_count = count4 + (extra - 1),
                             rs_depth = depth\<rparr>))
                else
                  Inr (False, \<lparr>rs_expression = expression4, rs_index = index, rs_div = dv,
                              rs_count = count4, rs_depth = depth\<rparr>)))))"

partial_function (option) random_loop ::
  "int list \<Rightarrow> int \<Rightarrow> int list \<Rightarrow> int list \<Rightarrow> random_state \<Rightarrow> (error + token list \<times> int) option" where
  "random_loop primes prime prime_set unreachable s =
     (case random_round primes prime prime_set unreachable s of
        Inl e \<Rightarrow> Some (Inl e)
      | Inr (finished, s') \<Rightarrow>
          if finished then Some (Inr (rs_expression s', rs_count s'))
          else random_loop primes prime prime_set unreachable s')"

declare random_loop.simps [code]

definition find_random_solution ::
  "int \<Rightarrow> int list \<Rightarrow> int \<Rightarrow> int \<Rightarrow> int list \<Rightarrow> int list \<Rightarrow> (error + token list \<times> int) option" where
  "find_random_solution n primes prime index prime_set unreachable =
     (case py_get primes index of
        Inl e \<Rightarrow> Some (Inl e)
      | Inr v \<Rightarrow>
          (case (if v \<noteq> prime then Inr v else py_get primes (index - 1)) of
             Inl e \<Rightarrow> Some (Inl e)
           | Inr dv \<Rightarrow>
               random_loop primes prime prime_set unreachable
                 \<lparr>rs_expression = [Lit n], rs_index = index, rs_div = dv, rs_count = 1,
                  rs_depth = 0\<rparr>))"

section \<open>Branch and bound\<close>

text \<open>
  The variables of \<open>find_expression\<close> that its loop changes: the queue, the dictionary
  \<open>seen\<close> and the best solution so far.
\<close>

record search_state =
  st_queue :: "Node list"
  st_seen :: seen_map
  st_expression_result :: "token list"
  st_operand_count_result :: int
  st_valid_result :: bool

definition pruned :: "int \<Rightarrow> search_state \<Rightarrow> bool" where
  "pruned c st =
     (c > st_operand_count_result st \<or> (c = st_operand_count_result st \<and> st_valid_result st))"

definition new_result :: "token list \<Rightarrow> int \<Rightarrow> search_state \<Rightarrow> search_state" where
  "new_result e c st =
     st\<lparr>st_expression_result := e, st_operand_count_result := c, st_valid_result := True\<rparr>"

text \<open>
  The first part of the body of the loop \<open>while remainders\<close>, for one popped triple: the
  new expression, a copy of the current one extended by the remainder, the prime and
  the quotient.
\<close>

definition extend_expression ::
  "int list \<Rightarrow> int list \<Rightarrow> int \<Rightarrow> int \<Rightarrow> token list \<Rightarrow> int \<Rightarrow> int \<Rightarrow> token list" where
  "extend_expression prime_set unreachable p current expression quot rem =
     (let is_remainder = (p * quot + rem = current);
          expression1 = expression @ [Sym '')''];
          expression2 =
            (if rem \<noteq> 0 then
               (if rem \<in> set prime_set then expression1 @ [Lit rem]
                else expression1 @ [Sym '')''] @ fst (decompose rem prime_set unreachable) @ [Sym ''(''])
               @ [Sym (if is_remainder then ''+'' else ''-'')]
             else expression1);
          expression3 = expression2 @ [Lit p]
      in if quot \<noteq> 1 then expression3 @ [Sym ''*'', Lit quot] else expression3)"

text \<open>
  The rest of the body: prune, finish, decompose the quotient, or push a new node (after
  an attempt with the greedy solution).
\<close>

definition process_candidate ::
  "int list \<Rightarrow> int \<Rightarrow> int list \<Rightarrow> int list \<Rightarrow> int \<Rightarrow> int \<Rightarrow> token list \<Rightarrow> int
     \<Rightarrow> int \<times> int \<times> int \<Rightarrow> search_state \<Rightarrow> (error + search_state) option" where
  "process_candidate primes prime prime_set unreachable p current expression depth cand st =
     (case cand of (new_count0, quot, rem) \<Rightarrow>
      (let new_expression = extend_expression prime_set unreachable p current expression quot rem;
           new_count = (if quot \<noteq> 1 then new_count0 + 1 else new_count0)
       in if pruned new_count st then Some (Inr st)
          else if quot = 1 \<or> quot \<in> set prime_set then
            Some (Inr (if new_count \<le> st_operand_count_result st
                       then new_result (new_expression @ replicate (nat depth) (Sym ''('')) new_count st
                       else st))
          else if quot < MIN_NON_DECOMPOSABLE then
            (case decompose quot prime_set unreachable of
               (expr, extra) \<Rightarrow>
                 (let new_expression' = butlast new_expression @ [Sym '')''] @ expr @ [Sym ''(''];
                      new_count' = new_count + (extra - 1)
                  in Some (Inr (if new_count' \<le> st_operand_count_result st
                                then new_result (new_expression' @ replicate (nat depth) (Sym ''('')) new_count' st
                                else st))))
          else
            (case estimation quot primes prime of
               None \<Rightarrow> None
             | Some (Inl e) \<Rightarrow> Some (Inl e)
             | Some (Inr est) \<Rightarrow>
                 (let min_count = new_count + est in
                  if pruned min_count st then Some (Inr st)
                  else
                    (case (if st_operand_count_result st * DEN \<ge> min_count * NUM then
                             (case find_random_solution quot primes prime (int (length primes) - 1)
                                     prime_set unreachable of
                                None \<Rightarrow> None
                              | Some (Inl e) \<Rightarrow> Some (Inl e)
                              | Some (Inr (expr, max_count0)) \<Rightarrow>
                                  (let max_count = max_count0 + new_count in
                                   Some (Inr (if max_count < st_operand_count_result st
                                              then new_result
                                                     ((butlast new_expression @ expr) @
                                                      replicate (nat depth) (Sym ''(''))
                                                     max_count st
                                              else st))))
                           else Some (Inr st)) of
                       None \<Rightarrow> None
                     | Some (Inl e) \<Rightarrow> Some (Inl e)
                     | Some (Inr st') \<Rightarrow>
                         Some (Inr (st'\<lparr>st_queue :=
                                          heappush node_lt (st_queue st')
                                            \<lparr>node_expression = new_expression, node_depth = depth + 1,
                                             node_count = new_count, node_min = min_count\<rparr>\<rparr>)))))))"

lemma length_siftdown_loop [simp]:
  "length (siftdown_loop lt heap newitem startpos pos) = length heap"
  by (induction lt heap newitem startpos pos rule: siftdown_loop.induct)
     (subst siftdown_loop.simps, simp add: Let_def)

lemma length_siftdown [simp]: "length (siftdown lt heap startpos pos) = length heap"
  by (simp add: siftdown_def)

lemma length_siftup_loop [simp]:
  "length (fst (siftup_loop lt heap endpos pos childpos)) = length heap"
  by (induction lt heap endpos pos childpos rule: siftup_loop.induct)
     (subst siftup_loop.simps, simp add: Let_def)

lemma length_siftup [simp]: "length (siftup lt heap pos) = length heap"
proof -
  obtain h p' where e: "siftup_loop lt heap (length heap) pos (2 * pos + 1) = (h, p')"
    by fastforce
  have "length (fst (h, p')) = length heap"
    unfolding e [symmetric] by (rule length_siftup_loop)
  with e show ?thesis by (simp add: siftup_def)
qed

lemma length_heappush [simp]: "length (heappush lt heap item) = Suc (length heap)"
  by (simp add: heappush_def)

lemma length_heappop: "heappop lt heap = Inr (x, heap') \<Longrightarrow> length heap' < length heap"
  by (auto simp: heappop_def Let_def split: if_splits)

text \<open>The loop \<open>while remainders\<close>.\<close>

function process_remainders ::
  "int list \<Rightarrow> int \<Rightarrow> int list \<Rightarrow> int list \<Rightarrow> int \<Rightarrow> int \<Rightarrow> token list \<Rightarrow> int
     \<Rightarrow> remainders_heap \<Rightarrow> search_state \<Rightarrow> (error + search_state) option" where
  "process_remainders primes prime prime_set unreachable p current expression depth remainders st =
     (if remainders = [] then Some (Inr st)
      else
        (case heappop tuple_lt remainders of
           Inl e \<Rightarrow> Some (Inl e)
         | Inr (cand, remainders') \<Rightarrow>
             (case process_candidate primes prime prime_set unreachable p current expression depth cand st of
                None \<Rightarrow> None
              | Some (Inl e) \<Rightarrow> Some (Inl e)
              | Some (Inr st') \<Rightarrow>
                  process_remainders primes prime prime_set unreachable p current expression depth
                    remainders' st')))"
  by pat_completeness auto
termination
  by (relation "measure (\<lambda>(primes, prime, prime_set, unreachable, p, current, expression, depth, remainders, st). length remainders)")
     (auto dest: length_heappop)

text \<open>The body of the loop \<open>for p in primes\<close>.\<close>

definition try_prime ::
  "int list \<Rightarrow> int \<Rightarrow> int list \<Rightarrow> int list \<Rightarrow> int \<Rightarrow> token list \<Rightarrow> int \<Rightarrow> int \<Rightarrow> int
     \<Rightarrow> search_state \<Rightarrow> (error + search_state) option" where
  "try_prime primes prime prime_set unreachable current expression depth cnt p st =
     (if p = prime \<or> p = 1 then Some (Inr st)
      else if p > current then Some (Inr st)
      else
        (let bound = get_remainders_bound p (last PRIMES) MIN_NON_DECOMPOSABLE in
         case get_possible_remainders p current cnt bound prime_set (st_seen st) unreachable of
           None \<Rightarrow> None
         | Some (Inl e) \<Rightarrow> Some (Inl e)
         | Some (Inr (seen', remainders)) \<Rightarrow>
             process_remainders primes prime prime_set unreachable p current expression depth
               remainders (st\<lparr>st_seen := seen'\<rparr>)))"

fun for_primes ::
  "int list \<Rightarrow> int \<Rightarrow> int list \<Rightarrow> int list \<Rightarrow> int \<Rightarrow> token list \<Rightarrow> int \<Rightarrow> int \<Rightarrow> int list
     \<Rightarrow> search_state \<Rightarrow> (error + search_state) option" where
  "for_primes primes prime prime_set unreachable current expression depth cnt [] st = Some (Inr st)"
| "for_primes primes prime prime_set unreachable current expression depth cnt (p # ps) st =
     (case try_prime primes prime prime_set unreachable current expression depth cnt p st of
        None \<Rightarrow> None
      | Some (Inl e) \<Rightarrow> Some (Inl e)
      | Some (Inr st') \<Rightarrow>
          for_primes primes prime prime_set unreachable current expression depth cnt ps st')"

text \<open>One round of the loop \<open>while queue\<close>, for a queue that is not empty.\<close>

definition search_round ::
  "int list \<Rightarrow> int \<Rightarrow> int list \<Rightarrow> int list \<Rightarrow> search_state \<Rightarrow> (error + search_state) option" where
  "search_round primes prime prime_set unreachable st =
     (case heappop node_lt (st_queue st) of
        Inl e \<Rightarrow> Some (Inl e)
      | Inr (node, queue') \<Rightarrow>
          (let st1 = st\<lparr>st_queue := queue'\<rparr>;
               depth = node_depth node;
               cnt = node_count node
           in if pruned cnt st1 then Some (Inr st1)
              else
                (case py_pop (node_expression node) of
                   Inl e \<Rightarrow> Some (Inl e)
                 | Inr (tok, expression) \<Rightarrow>
                     (case int_of tok of
                        Inl e \<Rightarrow> Some (Inl e)
                      | Inr current \<Rightarrow>
                          if (case st_seen st1 current of None \<Rightarrow> False | Some c \<Rightarrow> cnt - 1 > c)
                          then Some (Inr st1)
                          else for_primes primes prime prime_set unreachable current expression
                                 depth cnt primes st1))))"

partial_function (option) search_loop ::
  "int list \<Rightarrow> int \<Rightarrow> int list \<Rightarrow> int list \<Rightarrow> search_state \<Rightarrow> (error + search_state) option" where
  "search_loop primes prime prime_set unreachable st =
     (if st_queue st = [] then Some (Inr st)
      else
        (case search_round primes prime prime_set unreachable st of
           None \<Rightarrow> None
         | Some r \<Rightarrow>
             (case r of
                Inl e \<Rightarrow> Some (Inl e)
              | Inr st' \<Rightarrow> search_loop primes prime prime_set unreachable st')))"

declare search_loop.simps [code]

text \<open>
  \<open>find_expression\<close>. The result is \<open>None\<close> when a loop does not end, \<open>Some (Inl e)\<close>
  when the exception \<open>e\<close> is raised, and \<open>Some (Inr (expression, count))\<close> otherwise.
\<close>

definition find_expression :: "int \<Rightarrow> int list \<Rightarrow> int \<Rightarrow> (error + string \<times> int) option" where
  "find_expression n primes prime =
     (if n = 0 then
        (case py_get primes 0 of
           Inl e \<Rightarrow> Some (Inl e)
         | Inr p0 \<Rightarrow>
             (case (if p0 \<noteq> prime then Inr p0 else py_get primes 1) of
                Inl e \<Rightarrow> Some (Inl e)
              | Inr p \<Rightarrow> Some (Inr (str p @ ''-'' @ str p, 2))))
      else
        (let prime_set = [p \<leftarrow> primes. p \<noteq> prime] in
         if n \<in> set prime_set then Some (Inr (str n, 1))
         else
           (case UNREACHABLE prime of
              None \<Rightarrow> Some (Inl KeyError)
            | Some unreachable \<Rightarrow>
                if n < MIN_NON_DECOMPOSABLE then
                  (case decompose n prime_set unreachable of
                     (expression, cnt) \<Rightarrow> Some (Inr (join_reversed expression, cnt)))
                else
                  (case search_loop primes prime prime_set unreachable
                          \<lparr>st_queue = [\<lparr>node_expression = [Lit n], node_depth = 1,
                                        node_count = 1, node_min = 1\<rparr>],
                           st_seen = Map.empty,
                           st_expression_result = [],
                           st_operand_count_result = n + 1,
                           st_valid_result = False\<rparr> of
                     None \<Rightarrow> None
                   | Some (Inl e) \<Rightarrow> Some (Inl e)
                   | Some (Inr st) \<Rightarrow>
                       Some (Inr (join_reversed (st_expression_result st),
                                  st_operand_count_result st))))))"

section \<open>Reading an expression back\<close>

text \<open>
  What the checker of the results does with an output line: it evaluates the expression
  and it splits it at the operators and parentheses to find the numbers used. Here the
  string is cut into number and operator tokens, and the tokens are evaluated with the
  usual precedence (\<open>*\<close> and \<open>/\<close> before \<open>+\<close> and \<open>-\<close>, equal precedence from left to
  right, parentheses first), on exact rational numbers, by the two stacks of values and
  pending operators. The result is \<open>None\<close> when the string is no arithmetic expression
  or a division by zero occurs.
\<close>

definition digit_of :: "char \<Rightarrow> nat option" where
  "digit_of c = map_of (zip ''0123456789'' [0 ..< 10]) c"

fun lex_from :: "string \<Rightarrow> nat option \<Rightarrow> token list option" where
  "lex_from [] None = Some []"
| "lex_from [] (Some k) = Some [Lit (int k)]"
| "lex_from (c # cs) acc =
     (case digit_of c of
        Some d \<Rightarrow> lex_from cs (Some (10 * (case acc of None \<Rightarrow> 0 | Some k \<Rightarrow> k) + d))
      | None \<Rightarrow>
          if c \<in> set ''+-*/()'' then
            (case lex_from cs None of
               None \<Rightarrow> None
             | Some ts \<Rightarrow> Some ((case acc of None \<Rightarrow> [] | Some k \<Rightarrow> [Lit (int k)]) @ Sym [c] # ts))
          else None)"

definition lex :: "string \<Rightarrow> token list option" where
  "lex s = lex_from s None"

definition apply_op :: "string \<Rightarrow> rat \<Rightarrow> rat \<Rightarrow> rat option" where
  "apply_op f a b =
     (if f = ''+'' then Some (a + b)
      else if f = ''-'' then Some (a - b)
      else if f = ''*'' then Some (a * b)
      else if f = ''/'' then (if b = 0 then None else Some (a / b))
      else None)"

definition prec :: "string \<Rightarrow> nat" where
  "prec f = (if f = ''*'' \<or> f = ''/'' then 2 else 1)"

text \<open>Apply the pending operators on top of the stack until one at which to stop.\<close>

fun unwind :: "(string \<Rightarrow> bool) \<Rightarrow> rat list \<Rightarrow> string list \<Rightarrow> (rat list \<times> string list) option" where
  "unwind stop vals [] = Some (vals, [])"
| "unwind stop vals (f # fs) =
     (if stop f then Some (vals, f # fs)
      else
        (case vals of
           b # a # vs \<Rightarrow>
             (case apply_op f a b of None \<Rightarrow> None | Some r \<Rightarrow> unwind stop (r # vs) fs)
         | _ \<Rightarrow> None))"

fun eval_tokens :: "token list \<Rightarrow> bool \<Rightarrow> rat list \<Rightarrow> string list \<Rightarrow> rat option" where
  "eval_tokens [] operand vals fs =
     (if operand then None
      else (case unwind (\<lambda>f. False) vals fs of
              Some ([v], []) \<Rightarrow> Some v
            | _ \<Rightarrow> None))"
| "eval_tokens (Lit n # ts) operand vals fs =
     (if operand \<and> 0 \<le> n then eval_tokens ts False (of_int n # vals) fs else None)"
| "eval_tokens (Sym s # ts) operand vals fs =
     (if s = ''('' then (if operand then eval_tokens ts True vals (s # fs) else None)
      else if s = '')'' then
        (if operand then None
         else (case unwind (\<lambda>f. f = ''('') vals fs of
                 Some (vals', f # fs') \<Rightarrow> eval_tokens ts False vals' fs'
               | _ \<Rightarrow> None))
      else if s \<in> set [''+'', ''-'', ''*'', ''/''] then
        (if operand then None
         else (case unwind (\<lambda>f. f = ''('' \<or> prec f < prec s) vals fs of
                 Some (vals', fs') \<Rightarrow> eval_tokens ts True vals' (s # fs')
               | None \<Rightarrow> None))
      else None)"

definition evaluate :: "string \<Rightarrow> rat option" where
  "evaluate s = (case lex s of None \<Rightarrow> None | Some ts \<Rightarrow> eval_tokens ts True [] [])"

text \<open>The numbers of an expression, as the checker finds them: the pieces between operators.\<close>

definition numbers_used :: "string \<Rightarrow> int list option" where
  "numbers_used s =
     (case lex s of
        None \<Rightarrow> None
      | Some ts \<Rightarrow> Some (concat (map (\<lambda>t. case t of Lit n \<Rightarrow> [n] | Sym f \<Rightarrow> []) ts)))"

section \<open>Arithmetic expressions\<close>

text \<open>
  The expressions the problem allows: numbers combined with sum, difference, product and
  division. \<open>value_of\<close> is the exact value (\<open>None\<close> for a division by zero) and
  \<open>operands\<close> lists the numbers used, one entry for each occurrence.
\<close>

datatype arith = Operand int | Add arith arith | Sub arith arith | Mul arith arith | Quot arith arith

fun value_of :: "arith \<Rightarrow> rat option" where
  "value_of (Operand p) = Some (of_int p)"
| "value_of (Add a b) =
     (case value_of a of None \<Rightarrow> None
      | Some x \<Rightarrow> (case value_of b of None \<Rightarrow> None | Some y \<Rightarrow> Some (x + y)))"
| "value_of (Sub a b) =
     (case value_of a of None \<Rightarrow> None
      | Some x \<Rightarrow> (case value_of b of None \<Rightarrow> None | Some y \<Rightarrow> Some (x - y)))"
| "value_of (Mul a b) =
     (case value_of a of None \<Rightarrow> None
      | Some x \<Rightarrow> (case value_of b of None \<Rightarrow> None | Some y \<Rightarrow> Some (x * y)))"
| "value_of (Quot a b) =
     (case value_of a of None \<Rightarrow> None
      | Some x \<Rightarrow> (case value_of b of None \<Rightarrow> None
                   | Some y \<Rightarrow> if y = 0 then None else Some (x / y)))"

fun operands :: "arith \<Rightarrow> int list" where
  "operands (Operand p) = [p]"
| "operands (Add a b) = operands a @ operands b"
| "operands (Sub a b) = operands a @ operands b"
| "operands (Mul a b) = operands a @ operands b"
| "operands (Quot a b) = operands a @ operands b"

text \<open>
  A fraction \<open>N / D\<close> whose numerator is at most \<open>M ^ k\<close> in absolute value and whose
  denominator is positive and at most \<open>M ^ (k - 1)\<close>.
\<close>

definition fraction_within :: "int \<Rightarrow> nat \<Rightarrow> rat \<Rightarrow> bool" where
  "fraction_within M k v =
     (\<exists>N D. v = of_int N / of_int D \<and> \<bar>N\<bar> \<le> M ^ k \<and> 1 \<le> D \<and> D * M \<le> M ^ k)"

section \<open>Well-formed token lists\<close>

text \<open>
  A token is \<open>clean\<close> when it is one of the usable primes or one of the strings
  \<open>+\<close>, \<open>-\<close>, \<open>*\<close>, \<open>(\<close>, \<open>)\<close>; a list is \<open>spaced\<close> when no two numbers are neighbours, so
  that the joined string has one number for each number token.
\<close>

fun is_lit :: "token \<Rightarrow> bool" where
  "is_lit (Lit n) = True"
| "is_lit (Sym s) = False"

fun clean :: "int list \<Rightarrow> token \<Rightarrow> bool" where
  "clean ps (Lit v) = (v \<in> set ps)"
| "clean ps (Sym s) = (s \<in> set [''+'', ''-'', ''*'', ''('', '')''])"

fun spaced :: "token list \<Rightarrow> bool" where
  "spaced [] = True"
| "spaced [t] = True"
| "spaced (t # u # ts) = (\<not> (is_lit t \<and> is_lit u) \<and> spaced (u # ts))"

definition tidy :: "int list \<Rightarrow> token list \<Rightarrow> bool" where
  "tidy ps ts = (list_all (clean ps) ts \<and> spaced ts)"

text \<open>
  What the search keeps true: the best expression so far is tidy, and so is every
  expression of the queue below its last entry (the number still to be divided).
\<close>

definition search_inv :: "int list \<Rightarrow> search_state \<Rightarrow> bool" where
  "search_inv ps st =
     (tidy ps (st_expression_result st) \<and>
      list_all (\<lambda>node. tidy ps (butlast (node_expression node))) (st_queue st))"

text \<open>
  The state of the greedy loop between two rounds: the expression ends with the number
  still to be divided, which is not below the threshold, and the divisor is a usable
  prime.
\<close>

definition random_inv :: "int list \<Rightarrow> random_state \<Rightarrow> bool" where
  "random_inv ps s =
     (rs_expression s \<noteq> [] \<and> tidy ps (butlast (rs_expression s)) \<and>
      (case last (rs_expression s) of Lit n \<Rightarrow> MIN_NON_DECOMPOSABLE \<le> n | Sym f \<Rightarrow> False) \<and>
      rs_div s \<in> set ps \<and> 2 \<le> rs_div s \<and> rs_div s \<le> MIN_NON_DECOMPOSABLE)"

section \<open>Measures for termination\<close>

text \<open>
  A triple of the heap of remainders is sound for the division of \<open>current\<close> by \<open>p\<close> when
  its remainder is between 0 and the bound and \<open>current\<close> is \<open>p * quot + rem\<close> or
  \<open>p * quot - rem\<close>.
\<close>

definition candidate_ok :: "int \<Rightarrow> int \<Rightarrow> rat \<Rightarrow> int \<times> int \<times> int \<Rightarrow> bool" where
  "candidate_ok p current bound cand =
     (case cand of (c, quot, rem) \<Rightarrow>
        0 \<le> rem \<and> of_int rem \<le> bound \<and> (p * quot + rem = current \<or> p * quot - rem = current))"

text \<open>
  The number a node still has to divide, and the numbers of all nodes of the queue. Each
  round of the search replaces one of them by smaller ones.
\<close>

definition node_key :: "Node \<Rightarrow> nat" where
  "node_key node = (case last (node_expression node) of Lit c \<Rightarrow> nat c | Sym f \<Rightarrow> 0)"

definition pending :: "search_state \<Rightarrow> nat multiset" where
  "pending st = image_mset node_key (mset (st_queue st))"

definition random_key :: "random_state \<Rightarrow> nat" where
  "random_key s = (case last (rs_expression s) of Lit n \<Rightarrow> nat n | Sym f \<Rightarrow> 0)"

text \<open>Every expression of the queue ends with a number.\<close>

definition queue_ok :: "search_state \<Rightarrow> bool" where
  "queue_ok st =
     list_all (\<lambda>node. node_expression node \<noteq> [] \<and> is_lit (last (node_expression node))) (st_queue st)"

text \<open>
  What a step of the search does to the queue, seen from the state \<open>st\<close> before: the step
  returns a state and raises nothing, the numbers pending there are those of \<open>st\<close> and
  new ones that are all smaller than \<open>current\<close>, and the expressions of the queue still
  end with a number.
\<close>

definition progress :: "search_state \<Rightarrow> int \<Rightarrow> (error + search_state) option \<Rightarrow> bool" where
  "progress st current r =
     (case r of
        None \<Rightarrow> False
      | Some (Inl e) \<Rightarrow> False
      | Some (Inr st') \<Rightarrow>
          (\<exists>K. pending st' = pending st + K \<and> (\<forall>q \<in># K. q < nat current)) \<and>
          (queue_ok st \<longrightarrow> queue_ok st'))"

section \<open>Facts about the tables\<close>

lemma py_get_PRIMES_0: "py_get PRIMES 0 = Inr 1"
  by (simp add: py_get_def PRIMES_def)

lemma py_get_PRIMES_1: "py_get PRIMES 1 = Inr 2"
  by (simp add: py_get_def PRIMES_def)

lemma str_1: "str 1 = ''1''"
  by (simp add: str_def)

lemma str_2: "str 2 = ''2''"
  by (simp add: str_def)

lemma UNREACHABLE_eq:
  "UNREACHABLE p = (if p \<in> set PRIMES then Some (unreachable_without p) else None)"
  unfolding UNREACHABLE_def get_unreachable_numbers_def
  by (induction PRIMES) (auto simp: map_of_map_restrict restrict_map_def)

lemma unreachable_range:
  "x \<in> set (unreachable_without p) \<Longrightarrow> 1 \<le> x \<and> x < MIN_NON_DECOMPOSABLE"
  by (auto simp: unreachable_without_def Let_def NUMBERS_def)

section \<open>The target zero\<close>

text \<open>
  Claim C8, as the code has it: for every excluded prime, \<open>find_expression(0, PRIMES, prime)\<close>
  returns the self-subtraction \<open>q-q\<close> with count 2, where \<open>q\<close> is the first entry of
  \<open>PRIMES\<close> that is not the excluded prime: \<open>q\<close> is 1, and 2 only when 1 itself is excluded.
  \<open>q\<close> is an entry of \<open>PRIMES\<close> and differs from the excluded prime.
\<close>

theorem zero_target:
  "find_expression 0 PRIMES prime =
     Some (Inr (str (if prime = 1 then 2 else 1) @ ''-'' @ str (if prime = 1 then 2 else 1), 2))
   \<and> (if prime = 1 then 2 else 1) \<in> set PRIMES
   \<and> (if prime = 1 then 2 else 1) \<noteq> prime"
  by (simp add: find_expression_def py_get_PRIMES_0 py_get_PRIMES_1) (simp add: PRIMES_def)

text \<open>
  Claim C8 as stated fails: with 97 excluded the result is \<open>1-1\<close>, not \<open>2-2\<close>, since the
  list of primes starts with 1.
\<close>

theorem zero_target_97:
  "find_expression 0 PRIMES 97 = Some (Inr (''1-1'', 2)) \<and> ''1-1'' \<noteq> ''2-2''"
  by (simp add: find_expression_def py_get_PRIMES_0 str_1)

section \<open>Targets outside the precondition\<close>

lemma fold_upd_Some:
  "fold (\<lambda>(p, q) m. m(p * q \<mapsto> (p, q))) xs m0 n = Some pq \<Longrightarrow>
     (pq \<in> set xs \<and> n = fst pq * snd pq) \<or> m0 n = Some pq"
proof (induction xs arbitrary: m0)
  case Nil
  then show ?case by simp
next
  case (Cons x xs)
  obtain a b where x: "x = (a, b)" by (cases x)
  from Cons.prems x
  have "fold (\<lambda>(p, q) m. m(p * q \<mapsto> (p, q))) xs (m0(a * b \<mapsto> (a, b))) n = Some pq"
    by (simp only: fold_simps prod.case)
  from Cons.IH [OF this]
  have "(pq \<in> set xs \<and> n = fst pq * snd pq) \<or> (m0(a * b \<mapsto> (a, b))) n = Some pq" .
  then show ?case
  proof
    assume "pq \<in> set xs \<and> n = fst pq * snd pq"
    then show ?thesis by simp
  next
    assume h: "(m0(a * b \<mapsto> (a, b))) n = Some pq"
    show ?thesis
    proof (cases "n = a * b")
      case True
      with h have "pq = (a, b)" by simp
      with True x show ?thesis by simp
    next
      case False
      with h show ?thesis by simp
    qed
  qed
qed

lemma CROSS_PRODUCTS_Some:
  "CROSS_PRODUCTS n = Some (p, q) \<Longrightarrow>
     n = p * q \<and> 1 < p \<and> 1 < q \<and> p \<in> set PRIMES \<and> q \<in> set PRIMES"
  unfolding CROSS_PRODUCTS_def by (drule fold_upd_Some) auto

lemma PRIMES_pos: "p \<in> set PRIMES \<Longrightarrow> 1 \<le> p \<and> p \<le> 97"
  by (auto simp: PRIMES_def)

lemma CROSS_PRODUCTS_small: "n < 4 \<Longrightarrow> CROSS_PRODUCTS n = None"
proof (cases "CROSS_PRODUCTS n")
  case (Some pq)
  obtain p q where pq: "pq = (p, q)" by (cases pq)
  assume "n < 4"
  from Some pq CROSS_PRODUCTS_Some [of n p q] have h: "n = p * q" "1 < p" "1 < q" by auto
  then have "2 * 2 \<le> p * q" by (intro mult_mono) auto
  with h \<open>n < 4\<close> show ?thesis by simp
qed simp

lemma decompose2_no_product:
  "CROSS_PRODUCTS n = None \<Longrightarrow> 0 \<notin> set primes \<Longrightarrow>
   decompose2 n primes = decompose2_scan n primes primes"
  by (simp add: decompose2_def)

lemma decompose2_scan_difference:
  "\<forall>p \<in> set qs. \<not> p < n \<Longrightarrow>
     decompose2_scan n primes qs =
       (case find (\<lambda>p. p - n \<in> set primes) qs of
          None \<Rightarrow> []
        | Some p \<Rightarrow> [Lit (p - n), Sym ''-'', Lit p])"
  by (induction qs) (simp_all add: Let_def)

text \<open>
  Claim C9, as the code has it: a negative target is not rejected. For a negative target
  \<open>n\<close> and an excluded prime of \<open>PRIMES\<close>, no exception is raised and the count is 2. The
  expression is \<open>p-q\<close> for the first usable prime \<open>p\<close>, in the order of \<open>PRIMES\<close>, for
  which \<open>q = p - n\<close> is a usable prime too, so that \<open>p - q = n\<close>; it is the empty string
  when there is no such prime. A violation that does fail fast is an excluded prime
  without an entry in the table \<open>UNREACHABLE\<close>: when it is not in \<open>PRIMES\<close> and the target
  is neither 0 nor in \<open>PRIMES\<close>, the lookup raises \<open>KeyError\<close>.
\<close>

theorem negative_target:
  "(n < 0 \<and> prime \<in> set PRIMES \<longrightarrow>
      find_expression n PRIMES prime =
        Some (Inr (case find (\<lambda>p. p - n \<in> set [p \<leftarrow> PRIMES. p \<noteq> prime]) [p \<leftarrow> PRIMES. p \<noteq> prime] of
                     None \<Rightarrow> []
                   | Some p \<Rightarrow> str p @ ''-'' @ str (p - n), 2)))
   \<and> (n \<noteq> 0 \<and> n \<notin> set PRIMES \<and> prime \<notin> set PRIMES \<longrightarrow>
      find_expression n PRIMES prime = Some (Inl KeyError))"
proof (intro conjI impI)
  let ?ps = "[p \<leftarrow> PRIMES. p \<noteq> prime]"
  assume h: "n < 0 \<and> prime \<in> set PRIMES"
  then have a: "n \<notin> set ?ps" using PRIMES_pos [of n] by auto
  have b: "n \<notin> set (unreachable_without prime)" using unreachable_range [of n prime] h by auto
  have c: "CROSS_PRODUCTS n = None" using h by (intro CROSS_PRODUCTS_small) simp
  have d: "0 \<notin> set ?ps" using PRIMES_pos [of 0] by auto
  have "\<forall>p \<in> set ?ps. \<not> p < n" using h PRIMES_pos by fastforce
  from decompose2_scan_difference [OF this, of ?ps]
  have e: "join_reversed (decompose2_scan n ?ps ?ps) =
           (case find (\<lambda>p. p - n \<in> set ?ps) ?ps of None \<Rightarrow> [] | Some p \<Rightarrow> str p @ ''-'' @ str (p - n))"
    by (simp add: join_reversed_def split: option.splits)
  have "find_expression n PRIMES prime = Some (Inr (join_reversed (decompose2_scan n ?ps ?ps), 2))"
    using h a b decompose2_no_product [OF c d]
    by (simp add: find_expression_def UNREACHABLE_eq decompose_def MIN_NON_DECOMPOSABLE_def Let_def)
  then show "find_expression n PRIMES prime =
        Some (Inr (case find (\<lambda>p. p - n \<in> set ?ps) ?ps of
                     None \<Rightarrow> [] | Some p \<Rightarrow> str p @ ''-'' @ str (p - n), 2))"
    by (simp only: e)
next
  assume h: "n \<noteq> 0 \<and> n \<notin> set PRIMES \<and> prime \<notin> set PRIMES"
  then show "find_expression n PRIMES prime = Some (Inl KeyError)"
    by (simp add: find_expression_def UNREACHABLE_eq Let_def)
qed

text \<open>
  The cases at concrete inputs: the targets -1 and -3 without 97, and the excluded
  number 4.
\<close>

theorem negative_target_witness:
  "find_expression (- 1) PRIMES 97 = Some (Inr (''1-2'', 2))
   \<and> find_expression (- 3) PRIMES 97 = Some (Inr (''2-5'', 2))
   \<and> find_expression 100 PRIMES 4 = Some (Inl KeyError)"
proof -
  have m: "(97 :: int) \<in> set PRIMES" by (simp add: PRIMES_def)
  have "find_expression (- 1) PRIMES 97 = Some (Inr (''1-2'', 2))"
    using negative_target [of "- 1" 97] m by (simp add: PRIMES_def str_def)
  moreover have "find_expression (- 3) PRIMES 97 = Some (Inr (''2-5'', 2))"
    using negative_target [of "- 3" 97] m by (simp add: PRIMES_def str_def)
  moreover have "(100 :: int) \<noteq> 0 \<and> (100 :: int) \<notin> set PRIMES \<and> (4 :: int) \<notin> set PRIMES"
    by (simp add: PRIMES_def)
  then have "find_expression 100 PRIMES 4 = Some (Inl KeyError)"
    using negative_target [of 100 4] by blast
  ultimately show ?thesis by simp
qed

text \<open>
  Claim C9 as stated fails: the target -1000 raises nothing and comes back with the
  empty expression and the count 2.
\<close>

theorem negative_target_silent:
  "find_expression (- 1000) PRIMES 97 = Some (Inr ('''', 2))"
proof -
  have a: "(- 1000 :: int) \<notin> set [p \<leftarrow> PRIMES. p \<noteq> 97]" by (simp add: PRIMES_def)
  have b: "(- 1000 :: int) \<notin> set (unreachable_without 97)"
    using unreachable_range [of "- 1000" 97] by auto
  have c: "CROSS_PRODUCTS (- 1000) = None" by (intro CROSS_PRODUCTS_small) simp
  have d: "0 \<notin> set [p \<leftarrow> PRIMES. p \<noteq> 97]" by (simp add: PRIMES_def)
  have e: "decompose2_scan (- 1000) [p \<leftarrow> PRIMES. p \<noteq> 97] [p \<leftarrow> PRIMES. p \<noteq> 97] = []"
    by (simp add: PRIMES_def)
  have f: "(97 :: int) \<in> set PRIMES" by (simp add: PRIMES_def)
  show ?thesis
    using a b f decompose2_no_product [OF c d] e
    by (simp add: find_expression_def UNREACHABLE_eq decompose_def MIN_NON_DECOMPOSABLE_def
        Let_def join_reversed_def)
qed

section \<open>The lower bound is admissible\<close>

text \<open>
  An expression with \<open>k\<close> operands, each at most \<open>M\<close> in absolute value, has a value
  \<open>N / D\<close> with \<open>\<bar>N\<bar> \<le> M ^ k\<close> and \<open>1 \<le> D \<le> M ^ (k - 1)\<close>.
\<close>

lemma fraction_within_operand: "\<bar>p\<bar> \<le> M \<Longrightarrow> fraction_within M 1 (of_int p)"
  unfolding fraction_within_def by (rule exI [of _ p], rule exI [of _ 1]) simp

lemma fraction_within_add:
  assumes M: "2 \<le> M" and a: "fraction_within M i x" and b: "fraction_within M j y"
  shows "fraction_within M (i + j) (x + y)"
proof -
  from a obtain N1 D1 where x: "x = of_int N1 / of_int D1" and
    n1: "\<bar>N1\<bar> \<le> M ^ i" and d1: "1 \<le> D1" "D1 * M \<le> M ^ i"
    unfolding fraction_within_def by blast
  from b obtain N2 D2 where y: "y = of_int N2 / of_int D2" and
    n2: "\<bar>N2\<bar> \<le> M ^ j" and d2: "1 \<le> D2" "D2 * M \<le> M ^ j"
    unfolding fraction_within_def by blast
  have pi: "0 \<le> M ^ i" and pj: "0 \<le> M ^ j" using M by simp_all
  have e: "x + y = of_int (N1 * D2 + N2 * D1) / of_int (D1 * D2)"
    using d1 d2 by (simp add: x y add_frac_eq)
  have "\<bar>N1 * D2\<bar> * M \<le> M ^ i * M ^ j"
  proof -
    have "\<bar>N1 * D2\<bar> * M = \<bar>N1\<bar> * (D2 * M)" using d2 M by (simp add: abs_mult)
    also have "\<dots> \<le> M ^ i * M ^ j" using n1 d2 M pi by (intro mult_mono) auto
    finally show ?thesis .
  qed
  moreover have "\<bar>N2 * D1\<bar> * M \<le> M ^ i * M ^ j"
  proof -
    have "\<bar>N2 * D1\<bar> * M = (D1 * M) * \<bar>N2\<bar>" using d1 M by (simp add: abs_mult)
    also have "\<dots> \<le> M ^ i * M ^ j" using n2 d1 M pj by (intro mult_mono) auto
    finally show ?thesis .
  qed
  ultimately have "(\<bar>N1 * D2\<bar> + \<bar>N2 * D1\<bar>) * M \<le> 2 * (M ^ i * M ^ j)"
    by (simp add: distrib_right)
  also have "\<dots> \<le> M * (M ^ i * M ^ j)" using M pi pj by (intro mult_right_mono) auto
  finally have "(\<bar>N1 * D2\<bar> + \<bar>N2 * D1\<bar>) * M \<le> (M ^ i * M ^ j) * M" by (simp add: mult.commute)
  then have "\<bar>N1 * D2\<bar> + \<bar>N2 * D1\<bar> \<le> M ^ i * M ^ j" using M by simp
  then have n: "\<bar>N1 * D2 + N2 * D1\<bar> \<le> M ^ (i + j)" by (simp add: power_add)
  have "D1 * D2 * M \<le> D1 * M * (D2 * M)" using d1 d2 M
    by (simp add: mult_le_cancel_left1 mult.assoc mult.left_commute)
  also have "\<dots> \<le> M ^ i * M ^ j" using d1 d2 M by (intro mult_mono) auto
  finally have d: "D1 * D2 * M \<le> M ^ (i + j)" by (simp add: power_add)
  have "1 \<le> D1 * D2" using d1 d2 by (metis mult_mono mult_1 zero_le_one order_trans)
  with e n d show ?thesis unfolding fraction_within_def by blast
qed


lemma fraction_within_minus:
  assumes "fraction_within M k y"
  shows "fraction_within M k (- y)"
proof -
  from assms obtain N D where y: "y = of_int N / of_int D" and
    n: "\<bar>N\<bar> \<le> M ^ k" and d: "1 \<le> D" "D * M \<le> M ^ k"
    unfolding fraction_within_def by blast
  have "- y = of_int (- N) / of_int D" by (simp add: y)
  moreover have "\<bar>- N\<bar> \<le> M ^ k" using n by simp
  ultimately show ?thesis using d unfolding fraction_within_def by blast
qed

lemma fraction_within_sub:
  assumes "2 \<le> M" and "fraction_within M i x" and "fraction_within M j y"
  shows "fraction_within M (i + j) (x - y)"
  using fraction_within_add [OF assms(1) assms(2) fraction_within_minus [OF assms(3)]] by simp

lemma fraction_within_mul:
  assumes M: "2 \<le> M" and a: "fraction_within M i x" and b: "fraction_within M j y"
  shows "fraction_within M (i + j) (x * y)"
proof -
  from a obtain N1 D1 where x: "x = of_int N1 / of_int D1" and
    n1: "\<bar>N1\<bar> \<le> M ^ i" and d1: "1 \<le> D1" "D1 * M \<le> M ^ i"
    unfolding fraction_within_def by blast
  from b obtain N2 D2 where y: "y = of_int N2 / of_int D2" and
    n2: "\<bar>N2\<bar> \<le> M ^ j" and d2: "1 \<le> D2" "D2 * M \<le> M ^ j"
    unfolding fraction_within_def by blast
  have e: "x * y = of_int (N1 * N2) / of_int (D1 * D2)" by (simp add: x y)
  have "\<bar>N1\<bar> * \<bar>N2\<bar> \<le> M ^ i * M ^ j" using n1 n2 M by (intro mult_mono) auto
  then have n: "\<bar>N1 * N2\<bar> \<le> M ^ (i + j)" by (simp add: power_add abs_mult)
  have "D1 * D2 * M \<le> D1 * M * (D2 * M)" using d1 d2 M
    by (simp add: mult_le_cancel_left1 mult.assoc mult.left_commute)
  also have "\<dots> \<le> M ^ i * M ^ j" using d1 d2 M by (intro mult_mono) auto
  finally have d: "D1 * D2 * M \<le> M ^ (i + j)" by (simp add: power_add)
  have "1 \<le> D1 * D2" using d1 d2 by (metis mult_mono mult_1 zero_le_one order_trans)
  with e n d show ?thesis unfolding fraction_within_def by blast
qed

lemma fraction_within_quot:
  assumes M: "2 \<le> M" and a: "fraction_within M i x" and b: "fraction_within M j y"
    and nz: "y \<noteq> 0"
  shows "fraction_within M (i + j) (x / y)"
proof -
  from a obtain N1 D1 where x: "x = of_int N1 / of_int D1" and
    n1: "\<bar>N1\<bar> \<le> M ^ i" and d1: "1 \<le> D1" "D1 * M \<le> M ^ i"
    unfolding fraction_within_def by blast
  from b obtain N2 D2 where y: "y = of_int N2 / of_int D2" and
    n2: "\<bar>N2\<bar> \<le> M ^ j" and d2: "1 \<le> D2" "D2 * M \<le> M ^ j"
    unfolding fraction_within_def by blast
  from nz y have N2: "N2 \<noteq> 0" by auto
  have e: "x / y = of_int (sgn N2 * N1 * D2) / of_int (D1 * \<bar>N2\<bar>)"
    using N2 d1 d2 by (cases "0 < N2") (simp_all add: x y sgn_if)
  from mult_left_mono [of 1 M D2] d2 M have "D2 \<le> D2 * M" by simp
  with d2 have D2: "D2 \<le> M ^ j" by (simp only: order_trans)
  have "\<bar>N1\<bar> * D2 \<le> M ^ i * M ^ j" using n1 D2 d2 M by (intro mult_mono) auto
  moreover have "\<bar>sgn N2 * N1 * D2\<bar> = \<bar>N1\<bar> * D2" using N2 d2 by (simp add: abs_mult sgn_if)
  ultimately have n: "\<bar>sgn N2 * N1 * D2\<bar> \<le> M ^ (i + j)" by (simp add: power_add)
  have "D1 * \<bar>N2\<bar> * M = (D1 * M) * \<bar>N2\<bar>" by simp
  also have "\<dots> \<le> M ^ i * M ^ j" using d1 n2 M by (intro mult_mono) auto
  finally have d: "D1 * \<bar>N2\<bar> * M \<le> M ^ (i + j)" by (simp add: power_add)
  have "1 * 1 \<le> D1 * \<bar>N2\<bar>" using d1 N2 by (intro mult_mono) auto
  then have "1 \<le> D1 * \<bar>N2\<bar>" by simp
  with e n d show ?thesis unfolding fraction_within_def by blast
qed

lemma value_of_fraction_within:
  "2 \<le> M \<Longrightarrow> value_of e = Some v \<Longrightarrow> \<forall>p \<in> set (operands e). \<bar>p\<bar> \<le> M \<Longrightarrow>
     fraction_within M (length (operands e)) v"
proof (induction e arbitrary: v)
  case (Operand p)
  then show ?case using fraction_within_operand [of p M] by auto
next
  case (Add a b)
  then show ?case using fraction_within_add [of M] by (auto split: option.splits)
next
  case (Sub a b)
  then show ?case using fraction_within_sub [of M] by (auto split: option.splits)
next
  case (Mul a b)
  then show ?case using fraction_within_mul [of M] by (auto split: option.splits)
next
  case (Quot a b)
  then show ?case using fraction_within_quot [of M] by (auto split: option.splits if_splits)
qed

lemma integer_value_bound:
  assumes "fraction_within M k (of_int n)"
  shows "n \<le> M ^ k"
proof -
  from assms obtain N D where e: "(of_int n :: rat) = of_int N / of_int D" and
    n: "\<bar>N\<bar> \<le> M ^ k" and d: "1 \<le> D"
    unfolding fraction_within_def by blast
  from e d have "(of_int (n * D) :: rat) = of_int N" by (simp add: field_simps)
  then have nd: "n * D = N" by (simp only: of_int_eq_iff)
  show ?thesis
  proof (cases "0 \<le> n")
    case True
    then have "n * 1 \<le> n * D" using d by (intro mult_left_mono) auto
    with nd n show ?thesis by simp
  next
    case False
    moreover have "0 \<le> M ^ k" using n by simp
    ultimately show ?thesis by simp
  qed
qed

lemma estimation_loop_bound:
  "2 \<le> M \<Longrightarrow> x \<le> M ^ Suc j \<Longrightarrow>
     \<exists>r. estimation_loop M x c = Some (Inr r) \<and> r \<le> c + int j"
proof (induction j arbitrary: x c)
  case 0
  then show ?case by (subst estimation_loop.simps) simp
next
  case (Suc j)
  show ?case
  proof (cases "x > M")
    case False
    then show ?thesis by (subst estimation_loop.simps) simp
  next
    case True
    have "x div M \<le> (M * M ^ Suc j) div M" using Suc.prems by (intro zdiv_mono1) auto
    then have "x div M \<le> M ^ Suc j" using Suc.prems by simp
    from Suc.IH [OF Suc.prems(1) this, of "c + 1"]
    obtain r where "estimation_loop M (x div M) (c + 1) = Some (Inr r)" "r \<le> c + 1 + int j"
      by blast
    with True Suc.prems show ?thesis by (subst estimation_loop.simps) simp
  qed
qed

lemma py_get_PRIMES_last: "py_get PRIMES (- 1) = Inr 97"
  by (simp add: py_get_def PRIMES_def)

lemma py_get_PRIMES_last2: "py_get PRIMES (- 2) = Inr 89"
  by (simp add: py_get_def PRIMES_def)

lemma PRIMES_le_97: "p \<in> set PRIMES \<Longrightarrow> \<bar>p\<bar> \<le> 97"
  by (auto simp: PRIMES_def)

lemma PRIMES_le_89: "p \<in> set PRIMES \<Longrightarrow> p \<noteq> 97 \<Longrightarrow> \<bar>p\<bar> \<le> 89"
  by (auto simp: PRIMES_def)

text \<open>
  Claim C6: \<open>estimation(n, PRIMES, prime)\<close> never exceeds the number of operands of an
  expression that evaluates to \<open>n\<close> and only uses entries of \<open>PRIMES\<close> other than the
  excluded prime. This holds for every expression built with sum, difference, product and
  division, hence for one with the least number of operands.
\<close>

theorem estimation_admissible:
  assumes v: "value_of e = Some (of_int n)"
    and ops: "set (operands e) \<subseteq> set [p \<leftarrow> PRIMES. p \<noteq> prime]"
  shows "\<exists>k. estimation n PRIMES prime = Some (Inr k) \<and> k \<le> int (length (operands e))"
proof -
  have "operands e \<noteq> []" by (induction e) auto
  then obtain j where j: "length (operands e) = Suc j" by (cases "operands e") auto
  define M :: int where "M = (if prime \<noteq> 97 then 97 else 89)"
  have M: "2 \<le> M" by (simp add: M_def)
  have "\<forall>p \<in> set (operands e). \<bar>p\<bar> \<le> M"
    using ops PRIMES_le_97 PRIMES_le_89 by (auto simp: M_def)
  from value_of_fraction_within [OF M v this] have "n \<le> M ^ Suc j"
    unfolding j by (rule integer_value_bound)
  from estimation_loop_bound [OF M this, of 0]
  obtain r where "estimation_loop M n 0 = Some (Inr r)" "r \<le> int j" by auto
  then show ?thesis
    by (auto simp: estimation_def py_get_PRIMES_last py_get_PRIMES_last2 M_def j)
qed

text \<open>An instance: \<open>97 * (97 * 3) + 5 = 28232\<close>, with 2 excluded.\<close>

theorem estimation_admissible_witness:
  "value_of (Add (Mul (Operand 97) (Mul (Operand 97) (Operand 3))) (Operand 5)) = Some (of_int 28232)
   \<and> set (operands (Add (Mul (Operand 97) (Mul (Operand 97) (Operand 3))) (Operand 5)))
       \<subseteq> set [p \<leftarrow> PRIMES. p \<noteq> 2]
   \<and> estimation 28232 PRIMES 2 = Some (Inr 2)
   \<and> (\<exists>k. estimation 28232 PRIMES 2 = Some (Inr k) \<and> k \<le> 4)"
  using estimation_admissible [of "Add (Mul (Operand 97) (Mul (Operand 97) (Operand 3))) (Operand 5)" 28232 2]
  by (simp add: PRIMES_def estimation_def py_get_def estimation_loop.simps)

section \<open>The heap queue keeps its items\<close>

lemma mset_update_swap:
  "i < length xs \<Longrightarrow> j < length xs \<Longrightarrow> i \<noteq> j \<Longrightarrow>
     mset (xs[i := xs ! j, j := x]) = mset (xs[i := x])"
  by (simp add: mset_update nth_list_update)

lemma mset_siftdown_loop:
  "pos < length heap \<Longrightarrow>
     mset (siftdown_loop lt heap newitem startpos pos) = mset (heap[pos := newitem])"
proof (induction lt heap newitem startpos pos rule: siftdown_loop.induct)
  case (1 lt heap newitem startpos pos)
  show ?case
  proof (cases "pos > startpos \<and> lt newitem (heap ! ((pos - 1) div 2))")
    case False
    then show ?thesis by (subst siftdown_loop.simps) (auto simp: Let_def)
  next
    case True
    then have pp: "(pos - 1) div 2 < pos" by auto
    with 1 have lp: "(pos - 1) div 2 < length heap" by simp
    from True have
      "siftdown_loop lt heap newitem startpos pos =
         siftdown_loop lt (heap[pos := heap ! ((pos - 1) div 2)]) newitem startpos ((pos - 1) div 2)"
      by (subst siftdown_loop.simps) (simp add: Let_def)
    also have "mset \<dots> = mset (heap[pos := heap ! ((pos - 1) div 2), (pos - 1) div 2 := newitem])"
      using True lp by (intro "1.IH") auto
    also have "\<dots> = mset (heap[pos := newitem])"
      using 1 lp pp by (intro mset_update_swap) auto
    finally show ?thesis .
  qed
qed

lemma mset_siftdown: "pos < length heap \<Longrightarrow> mset (siftdown lt heap startpos pos) = mset heap"
  by (simp add: siftdown_def mset_siftdown_loop)

lemma mset_siftup_loop:
  "siftup_loop lt heap endpos pos childpos = (h, p') \<Longrightarrow> pos < childpos \<Longrightarrow>
     endpos \<le> length heap \<Longrightarrow> pos < length heap \<Longrightarrow>
     p' < length heap \<and> mset (h[p' := x]) = mset (heap[pos := x])"
proof (induction lt heap endpos pos childpos arbitrary: h p' rule: siftup_loop.induct)
  case (1 lt heap endpos pos childpos)
  show ?case
  proof (cases "childpos < endpos")
    case False
    with "1.prems" show ?thesis by (subst (asm) siftup_loop.simps) auto
  next
    case True
    define c where "c = (if childpos + 1 < endpos \<and> \<not> lt (heap ! childpos) (heap ! (childpos + 1))
                         then childpos + 1 else childpos)"
    have c: "c < endpos" "pos < c" using True "1.prems" by (auto simp: c_def)
    from True "1.prems"(1) have e: "siftup_loop lt (heap[pos := heap ! c]) endpos c (2 * c + 1) = (h, p')"
      by (subst (asm) siftup_loop.simps) (auto simp: Let_def c_def split: if_splits)
    have "p' < length (heap[pos := heap ! c]) \<and>
          mset (h[p' := x]) = mset (heap[pos := heap ! c, c := x])"
      using True e c "1.prems" by (intro "1.IH" [of "childpos + 1" c]) (auto simp: c_def)
    moreover have "mset (heap[pos := heap ! c, c := x]) = mset (heap[pos := x])"
      using c "1.prems" by (intro mset_update_swap) auto
    ultimately show ?thesis by simp
  qed
qed

lemma mset_siftup: "pos < length heap \<Longrightarrow> mset (siftup lt heap pos) = mset heap"
proof -
  assume l: "pos < length heap"
  obtain h p' where e: "siftup_loop lt heap (length heap) pos (2 * pos + 1) = (h, p')"
    by fastforce
  from mset_siftup_loop [OF e, of "heap ! pos"] l
  have p: "p' < length heap" and m: "mset (h[p' := heap ! pos]) = mset heap" by auto
  have "length (fst (h, p')) = length heap"
    unfolding e [symmetric] by (rule length_siftup_loop)
  with p have "p' < length (h[p' := heap ! pos])" by simp
  then have "mset (siftdown lt (h[p' := heap ! pos]) pos p') = mset (h[p' := heap ! pos])"
    by (rule mset_siftdown)
  with e m show ?thesis by (simp add: siftup_def)
qed

lemma mset_heappush: "mset (heappush lt heap item) = add_mset item (mset heap)"
  by (simp add: heappush_def mset_siftdown)

lemma mset_heappop:
  assumes "heappop lt heap = Inr (x, heap')"
  shows "mset heap = add_mset x (mset heap')"
proof -
  from assms have ne: "heap \<noteq> []" by (auto simp: heappop_def)
  then have s: "heap = butlast heap @ [last heap]" by simp
  show ?thesis
  proof (cases "butlast heap = []")
    case True
    with assms ne s show ?thesis by (auto simp: heappop_def Let_def)
  next
    case False
    then obtain y ys where b: "butlast heap = y # ys" by (cases "butlast heap") auto
    with assms ne have x: "x = y" and h: "heap' = siftup lt ((y # ys)[0 := last heap]) 0"
      by (auto simp: heappop_def Let_def)
    have "mset heap' = mset ((y # ys)[0 := last heap])" unfolding h by (rule mset_siftup) simp
    then have "add_mset x (mset heap') = mset (butlast heap @ [last heap])" by (simp add: b x)
    with s show ?thesis by simp
  qed
qed

lemma set_heappush: "set (heappush lt heap item) = insert item (set heap)"
  using mset_heappush [of lt heap item] by (metis set_mset_mset set_mset_add_mset_insert)

lemma set_heappop: "heappop lt heap = Inr (x, heap') \<Longrightarrow> set heap = insert x (set heap')"
  using mset_heappop [of lt heap x heap'] by (metis set_mset_mset set_mset_add_mset_insert)

section \<open>Token lists stay tidy\<close>

lemma spaced_Cons:
  "spaced (t # ts) = (spaced ts \<and> (ts = [] \<or> \<not> is_lit t \<or> \<not> is_lit (hd ts)))"
  by (cases ts) auto

lemma spaced_append:
  "spaced (A @ B) =
     (spaced A \<and> spaced B \<and> (A = [] \<or> B = [] \<or> \<not> is_lit (last A) \<or> \<not> is_lit (hd B)))"
proof (induction A rule: spaced.induct)
  case 1
  then show ?case by simp
next
  case (2 t)
  then show ?case by (cases B) (auto simp: spaced_Cons)
next
  case (3 t u ts)
  then show ?case by auto
qed

lemma spaced_rev: "spaced (rev ts) = spaced ts"
proof (induction ts rule: spaced.induct)
  case (3 t u ts)
  then show ?case by (auto simp: spaced_append last_rev)
qed simp_all

lemma tidy_Nil: "tidy ps []"
  by (simp add: tidy_def)

lemma tidy_Cons:
  "tidy ps (t # ts) = (clean ps t \<and> tidy ps ts \<and> (ts = [] \<or> \<not> is_lit t \<or> \<not> is_lit (hd ts)))"
  by (auto simp: tidy_def spaced_Cons)

lemma tidy_append:
  "tidy ps (A @ B) =
     (tidy ps A \<and> tidy ps B \<and> (A = [] \<or> B = [] \<or> \<not> is_lit (last A) \<or> \<not> is_lit (hd B)))"
  by (auto simp: tidy_def spaced_append)

lemma tidy_replicate: "tidy ps (replicate k (Sym ''(''))"
  by (induction k) (auto simp: tidy_Nil tidy_Cons)

lemma hd_replicate_sym: "replicate k (Sym s) = [] \<or> \<not> is_lit (hd (replicate k (Sym s)))"
  by (cases k) auto

lemma adjacent_replicate_sym:
  "A = [] \<or> replicate k (Sym s) = [] \<or> \<not> is_lit (last A) \<or> \<not> is_lit (hd (replicate k (Sym s)))"
  by (cases k) auto

lemma tidy_append_replicate: "tidy ps (A @ replicate k (Sym ''('')) = tidy ps A"
  unfolding tidy_append using tidy_replicate [of ps k] adjacent_replicate_sym [of A k "''(''"]
  by blast

lemma tidy_rev: "tidy ps (rev ts) = tidy ps ts"
  by (simp add: tidy_def spaced_rev list_all_iff)

lemmas tidy_simps = tidy_Nil tidy_Cons tidy_append_replicate tidy_append tidy_replicate
  hd_replicate_sym

lemma tidy_decompose2_scan:
  "set qs \<subseteq> set primes \<Longrightarrow> tidy primes (decompose2_scan n primes qs)"
  by (induction qs) (auto simp: tidy_simps Let_def)

lemma tidy_decompose2: "tidy primes (decompose2 n primes)"
  by (auto simp: decompose2_def tidy_simps tidy_decompose2_scan split: option.splits)

lemma tidy_decompose3_scan: "tidy primes (decompose3_scan n primes xs)"
  using tidy_decompose2 [of primes]
  by (induction xs) (auto simp: tidy_simps Let_def)

lemma tidy_decompose: "decompose n primes unreachable = (e, c) \<Longrightarrow> tidy primes e"
  by (auto simp: decompose_def decompose3_def tidy_decompose2 tidy_decompose3_scan split: if_splits)

lemma tidy_fst_decompose: "tidy primes (fst (decompose n primes unreachable))"
  by (cases "decompose n primes unreachable") (auto dest: tidy_decompose)

lemma list_all_heappush: "list_all P (heappush lt heap item) = (P item \<and> list_all P heap)"
  by (simp add: list_all_iff set_heappush)

lemma list_all_heappop:
  "heappop lt heap = Inr (x, heap') \<Longrightarrow> list_all P heap = (P x \<and> list_all P heap')"
  by (drule set_heappop) (simp add: list_all_iff)

lemma random_round_inv:
  assumes inv: "random_inv ps s"
    and r: "random_round primes prime ps unreachable s = Inr (fin, s')"
  shows "if fin then tidy ps (rs_expression s') else random_inv ps s'"
proof -
  from inv obtain es n where e: "rs_expression s = es @ [Lit n]" and es: "tidy ps es"
    and n: "MIN_NON_DECOMPOSABLE \<le> n"
    by (cases "rs_expression s" rule: rev_cases)
       (auto simp: random_inv_def split: token.splits)
  from inv have d: "rs_div s \<in> set ps" "2 \<le> rs_div s" "rs_div s \<le> MIN_NON_DECOMPOSABLE"
    by (auto simp: random_inv_def)
  with n have l: "lower_divisor n primes prime (rs_index s) (rs_div s) = Inr (rs_index s, rs_div s)"
    by simp
  from d have z: "rs_div s \<noteq> 0" by simp
  from d n have nlt: "\<not> n < rs_div s" by simp
  show ?thesis
    using r es d
    by (cases "n mod rs_div s = 0"; cases "n mod rs_div s \<in> set ps";
        cases "n div rs_div s = 1"; cases "n div rs_div s \<in> set ps";
        cases "n div rs_div s < MIN_NON_DECOMPOSABLE";
        clarsimp simp: random_round_def py_pop_def e nlt z Let_def random_inv_def
          tidy_simps tidy_decompose2 tidy_fst_decompose case_prod_beta MIN_NON_DECOMPOSABLE_def butlast_append)
qed


lemma random_loop_tidy:
  assumes "random_loop primes prime ps unreachable s = Some r"
  shows "random_inv ps s \<longrightarrow> (\<forall>expr c. r = Inr (expr, c) \<longrightarrow> tidy ps expr)"
proof (rule random_loop.raw_induct
    [where P = "\<lambda>primes prime ps unreachable s r.
                  random_inv ps s \<longrightarrow> (\<forall>expr c. r = Inr (expr, c) \<longrightarrow> tidy ps expr)",
     OF _ assms])
  fix loop primes prime ps unreachable s r
  assume IH: "\<And>primes prime ps unreachable s r.
      loop primes prime ps unreachable s = Some r \<Longrightarrow>
      random_inv ps s \<longrightarrow> (\<forall>expr c. r = Inr (expr, c) \<longrightarrow> tidy ps expr)"
    and step: "(case random_round primes prime ps unreachable s of
                  Inl e \<Rightarrow> Some (Inl e)
                | Inr (finished, s') \<Rightarrow>
                    if finished then Some (Inr (rs_expression s', rs_count s'))
                    else loop primes prime ps unreachable s') = Some r"
  show "random_inv ps s \<longrightarrow> (\<forall>expr c. r = Inr (expr, c) \<longrightarrow> tidy ps expr)"
  proof (intro impI allI)
    fix expr c
    assume inv: "random_inv ps s" and r: "r = Inr (expr, c)"
    show "tidy ps expr"
    proof (cases "random_round primes prime ps unreachable s")
      case (Inl e)
      with step r show ?thesis by simp
    next
      case (Inr fs)
      obtain fin s' where fs: "fs = (fin, s')" by (cases fs)
      from random_round_inv [OF inv Inr [unfolded fs]]
      have i: "if fin then tidy ps (rs_expression s') else random_inv ps s'" .
      show ?thesis
      proof (cases fin)
        case True
        with step Inr fs r i show ?thesis by simp
      next
        case False
        with step Inr fs have "loop primes prime ps unreachable s' = Some r" by simp
        from IH [OF this] False i r show ?thesis by simp
      qed
    qed
  qed
qed

lemma py_get_PRIMES_25: "py_get PRIMES 25 = Inr 97"
  by (simp add: py_get_def PRIMES_def)

lemma py_get_PRIMES_24: "py_get PRIMES 24 = Inr 89"
  by (simp add: py_get_def PRIMES_def)

lemma length_PRIMES: "int (length PRIMES) - 1 = 25"
  by (simp add: PRIMES_def)

lemma find_random_solution_tidy:
  assumes "find_random_solution n PRIMES prime 25 [p \<leftarrow> PRIMES. p \<noteq> prime] unreachable = Some (Inr (expr, c))"
    and "MIN_NON_DECOMPOSABLE \<le> n"
  shows "tidy [p \<leftarrow> PRIMES. p \<noteq> prime] expr"
proof -
  define dv :: int where "dv = (if prime \<noteq> 97 then 97 else 89)"
  define s where "s = \<lparr>rs_expression = [Lit n], rs_index = 25, rs_div = dv, rs_count = 1, rs_depth = 0\<rparr>"
  have "dv \<in> set [p \<leftarrow> PRIMES. p \<noteq> prime]" by (simp add: dv_def PRIMES_def)
  with assms(2) have "random_inv [p \<leftarrow> PRIMES. p \<noteq> prime] s"
    by (simp add: random_inv_def s_def tidy_Nil dv_def MIN_NON_DECOMPOSABLE_def)
  moreover from assms(1)
  have "random_loop PRIMES prime [p \<leftarrow> PRIMES. p \<noteq> prime] unreachable s = Some (Inr (expr, c))"
    by (simp add: find_random_solution_def py_get_PRIMES_25 py_get_PRIMES_24 s_def dv_def
        split: if_splits)
  ultimately show ?thesis using random_loop_tidy by blast
qed

lemma extend_expression_last:
  assumes "tidy ps expression" and "p \<in> set ps" and "quot \<noteq> 1"
  shows "\<exists>es. extend_expression ps unreachable p current expression quot rem = es @ [Sym ''*'', Lit quot]
              \<and> tidy ps (es @ [Sym ''*''])"
  using assms tidy_fst_decompose [of ps]
  by (cases "rem = 0"; cases "rem \<in> set ps")
     (simp_all add: extend_expression_def Let_def tidy_simps)

lemma extend_expression_tidy:
  assumes "tidy ps expression" and "p \<in> set ps" and "quot = 1 \<or> quot \<in> set ps"
  shows "tidy ps (extend_expression ps unreachable p current expression quot rem)"
  using assms tidy_fst_decompose [of ps]
  by (cases "rem = 0"; cases "rem \<in> set ps"; cases "quot = 1")
     (simp_all add: extend_expression_def Let_def tidy_simps)

lemma search_inv_new_result:
  "search_inv ps st \<Longrightarrow> tidy ps e \<Longrightarrow> search_inv ps (new_result e c st)"
  by (simp add: search_inv_def new_result_def)

lemma search_inv_push:
  "search_inv ps st \<Longrightarrow> tidy ps (butlast e) \<Longrightarrow>
     search_inv ps (st\<lparr>st_queue := heappush node_lt (st_queue st)
        \<lparr>node_expression = e, node_depth = d, node_count = c, node_min = m\<rparr>\<rparr>)"
  by (simp add: search_inv_def list_all_heappush)

lemma search_inv_seen: "search_inv ps (st\<lparr>st_seen := seen\<rparr>) = search_inv ps st"
  by (simp add: search_inv_def)

lemma search_inv_pop:
  "heappop node_lt (st_queue st) = Inr (node, queue') \<Longrightarrow> search_inv ps st \<Longrightarrow>
     search_inv ps (st\<lparr>st_queue := queue'\<rparr>) \<and> tidy ps (butlast (node_expression node))"
  by (drule list_all_heappop [where P = "\<lambda>node. tidy ps (butlast (node_expression node))"])
     (simp add: search_inv_def)

lemma process_candidate_inv:
  assumes pc: "process_candidate PRIMES prime ps unreachable p current expression depth cand st = Some (Inr st')"
    and ps: "ps = [q \<leftarrow> PRIMES. q \<noteq> prime]"
    and inv: "search_inv ps st" and e: "tidy ps expression" and p: "p \<in> set ps"
  shows "search_inv ps st'"
proof -
  obtain nc0 quot rem where cand: "cand = (nc0, quot, rem)" by (cases cand)
  let ?ne = "extend_expression ps unreachable p current expression quot rem"
  show ?thesis
  proof (cases "quot = 1 \<or> quot \<in> set ps")
    case True
    with e p have "tidy ps ?ne" by (intro extend_expression_tidy)
    with pc True inv show ?thesis
      by (auto simp: process_candidate_def cand Let_def tidy_append_replicate
          intro!: search_inv_new_result split: if_splits)
  next
    case False
    then have q1: "quot \<noteq> 1" by simp
    from extend_expression_last [OF e p q1, of unreachable current rem]
    obtain es where ne: "?ne = es @ [Sym ''*'', Lit quot]" and es: "tidy ps (es @ [Sym ''*''])"
      by blast
    show ?thesis
    proof (cases "quot < MIN_NON_DECOMPOSABLE")
      case True
      with pc False inv es show ?thesis
        by (auto simp: process_candidate_def cand Let_def ne butlast_append tidy_append_replicate tidy_simps
            intro!: search_inv_new_result dest: tidy_decompose split: if_splits prod.splits)
    next
      case q: False
      have r: "tidy ps expr"
        if "find_random_solution quot PRIMES prime (int (length PRIMES) - 1) ps unreachable = Some (Inr (expr, c))"
        for expr c
        using that q find_random_solution_tidy [of quot prime unreachable expr c]
        by (simp add: length_PRIMES ps)
      from pc False q inv es show ?thesis
        by (auto simp: process_candidate_def cand Let_def ne butlast_append tidy_append_replicate tidy_simps
            intro!: search_inv_new_result search_inv_push dest: r
            split: if_splits prod.splits option.splits sum.splits)
    qed
  qed
qed


declare process_remainders.simps [simp del]

lemma process_remainders_inv:
  assumes ps: "ps = [q \<leftarrow> PRIMES. q \<noteq> prime]" and e: "tidy ps expression" and p: "p \<in> set ps"
  shows "search_inv ps st \<Longrightarrow>
         process_remainders PRIMES prime ps unreachable p current expression depth remainders st = Some (Inr st')
         \<Longrightarrow> search_inv ps st'"
proof (induction "length remainders" arbitrary: remainders st rule: less_induct)
  case less
  show ?case
  proof (cases "remainders = []")
    case True
    with less.prems show ?thesis by (subst (asm) process_remainders.simps) simp
  next
    case False
    with less.prems(2) obtain cand rest st1 where
      pop: "heappop tuple_lt remainders = Inr (cand, rest)" and
      pc: "process_candidate PRIMES prime ps unreachable p current expression depth cand st = Some (Inr st1)" and
      rec: "process_remainders PRIMES prime ps unreachable p current expression depth rest st1 = Some (Inr st')"
      by (subst (asm) process_remainders.simps) (auto split: sum.splits option.splits)
    from process_candidate_inv [OF pc ps less.prems(1) e p] have "search_inv ps st1" .
    with less.hyps [OF length_heappop [OF pop] _ rec] show ?thesis .
  qed
qed

lemma try_prime_inv:
  assumes ps: "ps = [q \<leftarrow> PRIMES. q \<noteq> prime]" and e: "tidy ps expression" and p: "p \<in> set PRIMES"
    and inv: "search_inv ps st"
    and t: "try_prime PRIMES prime ps unreachable current expression depth cnt p st = Some (Inr st')"
  shows "search_inv ps st'"
proof (cases "p = prime \<or> p = 1 \<or> p > current")
  case True
  with t inv show ?thesis by (auto simp: try_prime_def split: if_splits)
next
  case False
  with p have pp: "p \<in> set ps" by (simp add: ps)
  from t False obtain seen' remainders where
    "process_remainders PRIMES prime ps unreachable p current expression depth remainders
       (st\<lparr>st_seen := seen'\<rparr>) = Some (Inr st')"
    by (auto simp: try_prime_def Let_def split: option.splits sum.splits)
  from process_remainders_inv [OF ps e pp _ this] inv show ?thesis
    by (simp add: search_inv_seen)
qed

lemma for_primes_inv:
  assumes ps: "ps = [q \<leftarrow> PRIMES. q \<noteq> prime]" and e: "tidy ps expression"
  shows "set qs \<subseteq> set PRIMES \<Longrightarrow> search_inv ps st \<Longrightarrow>
         for_primes PRIMES prime ps unreachable current expression depth cnt qs st = Some (Inr st')
         \<Longrightarrow> search_inv ps st'"
proof (induction qs arbitrary: st)
  case Nil
  then show ?case by simp
next
  case (Cons q qs)
  from Cons.prems(3) obtain st1 where
    t: "try_prime PRIMES prime ps unreachable current expression depth cnt q st = Some (Inr st1)" and
    r: "for_primes PRIMES prime ps unreachable current expression depth cnt qs st1 = Some (Inr st')"
    by (auto split: option.splits sum.splits)
  from Cons.prems(1) have q: "q \<in> set PRIMES" and qs: "set qs \<subseteq> set PRIMES" by auto
  from try_prime_inv [OF ps e q Cons.prems(2) t] have "search_inv ps st1" .
  from Cons.IH [OF qs this r] show ?case .
qed

lemma search_round_inv:
  assumes ps: "ps = [q \<leftarrow> PRIMES. q \<noteq> prime]" and inv: "search_inv ps st"
    and r: "search_round PRIMES prime ps unreachable st = Some (Inr st')"
  shows "search_inv ps st'"
proof (cases "heappop node_lt (st_queue st)")
  case (Inl e)
  with r show ?thesis by (simp add: search_round_def)
next
  case (Inr nq)
  obtain node queue' where nq: "nq = (node, queue')" by (cases nq)
  from search_inv_pop [OF Inr [unfolded nq] inv]
  have i1: "search_inv ps (st\<lparr>st_queue := queue'\<rparr>)" and
    t: "tidy ps (butlast (node_expression node))" by auto
  show ?thesis
  proof (cases "for_primes PRIMES prime ps unreachable
                  (case last (node_expression node) of Lit c \<Rightarrow> c | Sym f \<Rightarrow> 0)
                  (butlast (node_expression node)) (node_depth node) (node_count node) PRIMES
                  (st\<lparr>st_queue := queue'\<rparr>) = Some (Inr st')")
    case True
    from for_primes_inv [OF ps t _ i1 True] show ?thesis by simp
  next
    case False
    with r Inr nq i1 show ?thesis
      by (auto simp: search_round_def Let_def py_pop_def
          split: if_splits sum.splits token.splits option.splits)
  qed
qed

lemma search_loop_inv:
  assumes "search_loop primes prime ps unreachable st = Some r"
  shows "primes = PRIMES \<and> ps = [q \<leftarrow> PRIMES. q \<noteq> prime] \<and> search_inv ps st \<longrightarrow>
         (\<forall>st'. r = Inr st' \<longrightarrow> search_inv ps st')"
proof (rule search_loop.raw_induct
    [where P = "\<lambda>primes prime ps unreachable st r.
                  primes = PRIMES \<and> ps = [q \<leftarrow> PRIMES. q \<noteq> prime] \<and> search_inv ps st \<longrightarrow>
                  (\<forall>st'. r = Inr st' \<longrightarrow> search_inv ps st')",
     OF _ assms])
  fix loop primes prime ps unreachable st r
  assume IH: "\<And>primes prime ps unreachable st r.
      loop primes prime ps unreachable st = Some r \<Longrightarrow>
      primes = PRIMES \<and> ps = [q \<leftarrow> PRIMES. q \<noteq> prime] \<and> search_inv ps st \<longrightarrow>
      (\<forall>st'. r = Inr st' \<longrightarrow> search_inv ps st')"
    and step: "(if st_queue st = [] then Some (Inr st)
                else case search_round primes prime ps unreachable st of
                       None \<Rightarrow> None
                     | Some r \<Rightarrow> (case r of Inl e \<Rightarrow> Some (Inl e)
                                  | Inr st' \<Rightarrow> loop primes prime ps unreachable st')) = Some r"
  show "primes = PRIMES \<and> ps = [q \<leftarrow> PRIMES. q \<noteq> prime] \<and> search_inv ps st \<longrightarrow>
        (\<forall>st'. r = Inr st' \<longrightarrow> search_inv ps st')"
  proof (intro impI allI)
    fix st'
    assume a: "primes = PRIMES \<and> ps = [q \<leftarrow> PRIMES. q \<noteq> prime] \<and> search_inv ps st"
      and r: "r = Inr st'"
    show "search_inv ps st'"
    proof (cases "st_queue st = []")
      case True
      with step r a show ?thesis by auto
    next
      case False
      with step r obtain st1 where
        sr: "search_round primes prime ps unreachable st = Some (Inr st1)" and
        l: "loop primes prime ps unreachable st1 = Some r"
        by (auto split: option.splits sum.splits)
      from a sr have "search_inv ps st1" using search_round_inv by blast
      with IH [OF l] a r show ?thesis by auto
    qed
  qed
qed

lemma find_expression_tokens:
  assumes "find_expression n PRIMES prime = Some (Inr (s, c))"
  shows "\<exists>ts. s = join_reversed ts \<and> tidy [q \<leftarrow> PRIMES. q \<noteq> prime] ts"
proof -
  let ?ps = "[q \<leftarrow> PRIMES. q \<noteq> prime]"
  consider (zero) "n = 0" | (single) "n \<noteq> 0" "n \<in> set ?ps"
    | (small) "n \<noteq> 0" "n \<notin> set ?ps" "n < MIN_NON_DECOMPOSABLE"
    | (large) "n \<noteq> 0" "n \<notin> set ?ps" "\<not> n < MIN_NON_DECOMPOSABLE"
    by blast
  then show ?thesis
  proof cases
    case zero
    define p :: int where "p = (if prime = 1 then 2 else 1)"
    have "p \<in> set ?ps" by (simp add: p_def PRIMES_def)
    then have "tidy ?ps [Lit p, Sym ''-'', Lit p]" by (simp add: tidy_simps)
    moreover from assms zero have "s = join_reversed [Lit p, Sym ''-'', Lit p]"
      by (auto simp: find_expression_def py_get_PRIMES_0 py_get_PRIMES_1 join_reversed_def p_def)
    ultimately show ?thesis by blast
  next
    case single
    then have "tidy ?ps [Lit n]" by (simp add: tidy_simps)
    moreover from assms single have "s = join_reversed [Lit n]"
      by (auto simp: find_expression_def join_reversed_def)
    ultimately show ?thesis by blast
  next
    case small
    with assms obtain unreachable e where "decompose n ?ps unreachable = (e, c)" "s = join_reversed e"
      by (auto simp: find_expression_def Let_def split: option.splits prod.splits)
    then show ?thesis using tidy_decompose by blast
  next
    case large
    let ?st0 = "\<lparr>st_queue = [\<lparr>node_expression = [Lit n], node_depth = 1, node_count = 1, node_min = 1\<rparr>],
                 st_seen = Map.empty, st_expression_result = [],
                 st_operand_count_result = n + 1, st_valid_result = False\<rparr>"
    from assms large obtain unreachable st where
      l: "search_loop PRIMES prime ?ps unreachable ?st0 = Some (Inr st)" and
      s: "s = join_reversed (st_expression_result st)"
      by (auto simp: find_expression_def Let_def split: option.splits sum.splits)
    have "search_inv ?ps ?st0" by (simp add: search_inv_def tidy_Nil)
    with search_loop_inv [OF l] have "search_inv ?ps st" by simp
    with s show ?thesis by (auto simp: search_inv_def)
  qed
qed

section \<open>Reading a tidy expression back\<close>

declare str_nat.simps [simp del]

lemma digit_of_digit: "n < 10 \<Longrightarrow> digit_of (''0123456789'' ! n) = Some n"
proof -
  assume "n < 10"
  then have "n \<in> {0, 1, 2, 3, 4, 5, 6, 7, 8, 9}" by auto
  then show ?thesis by (elim insertE) (simp_all add: digit_of_def upt_rec)
qed

lemma digit_of_operator: "c \<in> set ''+-*/()'' \<Longrightarrow> digit_of c = None"
  by (auto simp: digit_of_def upt_rec)

lemma lex_from_digit:
  "n < 10 \<Longrightarrow> lex_from ((''0123456789'' ! n) # cs) acc =
     lex_from cs (Some (10 * (case acc of None \<Rightarrow> 0 | Some k \<Rightarrow> k) + n))"
  by (simp only: lex_from.simps digit_of_digit option.case)

lemma lex_from_operator:
  "c \<in> set ''+-*/()'' \<Longrightarrow> lex_from (c # cs) acc =
     (case lex_from cs None of
        None \<Rightarrow> None
      | Some ts \<Rightarrow> Some ((case acc of None \<Rightarrow> [] | Some k \<Rightarrow> [Lit (int k)]) @ Sym [c] # ts))"
  by (simp only: lex_from.simps digit_of_operator option.case if_True)

lemma str_nat_small: "n < 10 \<Longrightarrow> str_nat n = [''0123456789'' ! n]"
  by (subst str_nat.simps) (simp only: if_True)

lemma str_nat_large:
  "\<not> n < 10 \<Longrightarrow> str_nat n = str_nat (n div 10) @ [''0123456789'' ! (n mod 10)]"
  by (subst str_nat.simps) (simp only: if_False)

lemma set_str_nat: "set (str_nat n) \<subseteq> set ''0123456789''"
proof (induction n rule: str_nat.induct)
  case (1 n)
  have d: "''0123456789'' ! k \<in> set ''0123456789''" if "k < 10" for k
    using that by (intro nth_mem) simp
  show ?case
  proof (cases "n < 10")
    case True
    with d [of n] show ?thesis by (simp only: str_nat_small) simp
  next
    case False
    have "n mod 10 < 10" by simp
    from d [OF this] 1 [OF False] show ?thesis by (simp only: str_nat_large [OF False]) simp
  qed
qed

lemma lex_from_str_nat:
  "lex_from (str_nat n @ cs) acc =
     lex_from cs (Some (10 ^ length (str_nat n) * (case acc of None \<Rightarrow> 0 | Some k \<Rightarrow> k) + n))"
proof (induction n arbitrary: cs acc rule: str_nat.induct)
  case (1 n)
  show ?case
  proof (cases "n < 10")
    case True
    then show ?thesis
      by (simp only: str_nat_small lex_from_digit append_Cons append_Nil list.size) simp
  next
    case False
    have m: "n mod 10 < 10" by simp
    have "lex_from (str_nat n @ cs) acc =
          lex_from (str_nat (n div 10) @ ((''0123456789'' ! (n mod 10)) # cs)) acc"
      by (simp only: str_nat_large [OF False] append_assoc append_Cons append_Nil)
    also have "\<dots> = lex_from ((''0123456789'' ! (n mod 10)) # cs)
            (Some (10 ^ length (str_nat (n div 10)) * (case acc of None \<Rightarrow> 0 | Some k \<Rightarrow> k) + n div 10))"
      by (rule 1 [OF False])
    also have "\<dots> = lex_from cs
        (Some (10 * (10 ^ length (str_nat (n div 10)) * (case acc of None \<Rightarrow> 0 | Some k \<Rightarrow> k) + n div 10)
               + n mod 10))"
      by (simp only: lex_from_digit [OF m] option.case)
    also have "10 * (10 ^ length (str_nat (n div 10)) * (case acc of None \<Rightarrow> 0 | Some k \<Rightarrow> k) + n div 10)
               + n mod 10 = 10 ^ length (str_nat n) * (case acc of None \<Rightarrow> 0 | Some k \<Rightarrow> k) + n"
      by (simp only: str_nat_large [OF False]) (simp add: algebra_simps)
    finally show ?thesis .
  qed
qed

lemma render_nonneg: "0 \<le> v \<Longrightarrow> render (Lit v) = str_nat (nat v)"
  by (simp only: render.simps str_def) simp

lemma literals_of_tidy:
  "list_all (clean ps) ts \<Longrightarrow>
     set (concat (map (\<lambda>t. case t of Lit n \<Rightarrow> [n] | Sym f \<Rightarrow> []) ts)) \<subseteq> set ps"
  by (induction ts) (auto split: token.splits)

lemma PRIMES_nonneg: "\<forall>v \<in> set [q \<leftarrow> PRIMES. q \<noteq> prime]. 0 \<le> v"
  by (auto simp: PRIMES_def)

lemma digits_allowed: "set ''0123456789'' \<subseteq> set ''0123456789+-*()''"
  by simp

lemma set_render_clean:
  assumes "\<forall>v \<in> set ps. 0 \<le> v" and "clean ps t"
  shows "set (render t) \<subseteq> set ''0123456789+-*()''"
proof (cases t)
  case (Lit v)
  with assms have "0 \<le> v" by auto
  then have "render t = str_nat (nat v)" unfolding Lit by (rule render_nonneg)
  then show ?thesis using set_str_nat [of "nat v"] digits_allowed by (simp only: order_trans)
next
  case (Sym f)
  with assms have "f \<in> {''+'', ''-'', ''*'', ''('', '')''}" by simp
  then show ?thesis unfolding Sym by (elim insertE) simp_all
qed

lemma lex_from_tokens:
  assumes nonneg: "\<forall>v \<in> set ps. 0 \<le> v"
  shows "list_all (clean ps) ts \<Longrightarrow> spaced ts \<Longrightarrow> acc = None \<or> ts = [] \<or> \<not> is_lit (hd ts) \<Longrightarrow>
         lex_from (concat (map render ts)) acc =
           Some ((case acc of None \<Rightarrow> [] | Some k \<Rightarrow> [Lit (int k)]) @ ts)"
proof (induction ts arbitrary: acc)
  case Nil
  then show ?case by (cases acc) simp_all
next
  case (Cons t ts)
  from Cons.prems have tl: "list_all (clean ps) ts" "spaced ts" by (auto simp: spaced_Cons)
  show ?case
  proof (cases t)
    case (Lit v)
    with Cons.prems have acc: "acc = None" and v: "0 \<le> v" and
      nx: "Some (nat v) = None \<or> ts = [] \<or> \<not> is_lit (hd ts)"
      using nonneg by (auto simp: spaced_Cons)
    have "lex_from (concat (map render (t # ts))) acc =
          lex_from (str_nat (nat v) @ concat (map render ts)) None"
      by (simp only: Lit acc list.map concat.simps render_nonneg [OF v])
    also have "\<dots> = lex_from (concat (map render ts)) (Some (nat v))"
      by (simp only: lex_from_str_nat option.case) simp
    also have "\<dots> = Some ([Lit (int (nat v))] @ ts)"
      using Cons.IH [OF tl nx] by (simp only: option.case)
    also have "\<dots> = Some ((case acc of None \<Rightarrow> [] | Some k \<Rightarrow> [Lit (int k)]) @ t # ts)"
      using v by (simp add: acc Lit)
    finally show ?thesis .
  next
    case (Sym f)
    with Cons.prems have "f \<in> {''+'', ''-'', ''*'', ''('', '')''}" by simp
    then obtain c where f: "f = [c]" and c: "c \<in> set ''+-*/()''"
      by (elim insertE) simp_all
    from Cons.IH [OF tl, of None]
    have i: "lex_from (concat (map render ts)) None = Some ts" by simp
    have "lex_from (concat (map render (t # ts))) acc = lex_from (c # concat (map render ts)) acc"
      by (simp only: Sym f list.map concat.simps render.simps append_Cons append_Nil)
    also have "\<dots> = Some ((case acc of None \<Rightarrow> [] | Some k \<Rightarrow> [Lit (int k)]) @ Sym [c] # ts)"
      by (simp only: lex_from_operator [OF c] i option.case)
    finally show ?thesis by (simp only: Sym f)
  qed
qed

lemma lex_join_reversed:
  assumes "\<forall>v \<in> set ps. 0 \<le> v" and "tidy ps ts"
  shows "lex (join_reversed ts) = Some (rev ts)"
proof -
  from assms(2) have "tidy ps (rev ts)" by (simp add: tidy_rev)
  then have "list_all (clean ps) (rev ts)" "spaced (rev ts)" by (simp_all add: tidy_def)
  from lex_from_tokens [OF assms(1) this, of None] show ?thesis
    by (simp add: lex_def join_reversed_def)
qed

text \<open>
  Claim C3: the numbers of the expression returned by \<open>find_expression\<close>, read back from
  the string, are all usable primes: entries of \<open>PRIMES\<close> other than the excluded one. So
  the excluded prime is not among them.
\<close>

theorem excluded_prime_unused:
  assumes "find_expression n PRIMES prime = Some (Inr (s, c))"
  shows "\<exists>ns. numbers_used s = Some ns \<and> set ns \<subseteq> set [q \<leftarrow> PRIMES. q \<noteq> prime] \<and> prime \<notin> set ns"
proof -
  from find_expression_tokens [OF assms] obtain ts where
    s: "s = join_reversed ts" and t: "tidy [q \<leftarrow> PRIMES. q \<noteq> prime] ts" by blast
  from lex_join_reversed [OF PRIMES_nonneg t] have l: "lex s = Some (rev ts)" by (simp add: s)
  from t have "list_all (clean [q \<leftarrow> PRIMES. q \<noteq> prime]) (rev ts)" by (simp add: tidy_def)
  from literals_of_tidy [OF this] l show ?thesis by (auto simp: numbers_used_def)
qed

text \<open>An instance: the target 5 with 2 excluded is the expression \<open>5\<close>.\<close>

theorem excluded_prime_unused_witness:
  "find_expression 5 PRIMES 2 = Some (Inr (''5'', 1))
   \<and> (\<exists>ns. numbers_used ''5'' = Some ns \<and> set ns \<subseteq> set [q \<leftarrow> PRIMES. q \<noteq> 2] \<and> 2 \<notin> set ns)"
proof -
  have "find_expression 5 PRIMES 2 = Some (Inr (''5'', 1))"
    by (simp add: find_expression_def PRIMES_def str_def str_nat.simps)
  with excluded_prime_unused [of 5 2 "''5''" 1] show ?thesis by simp
qed

text \<open>
  Claim C10: the expression returned by \<open>find_expression\<close> has no other characters than
  digits, \<open>+\<close>, \<open>-\<close>, \<open>*\<close> and the two parentheses; the division sign does not occur.
\<close>

theorem no_division_in_output:
  assumes "find_expression n PRIMES prime = Some (Inr (s, c))"
  shows "set s \<subseteq> set ''0123456789+-*()'' \<and> CHR ''/'' \<notin> set s"
proof -
  from find_expression_tokens [OF assms] obtain ts where
    s: "s = join_reversed ts" and t: "tidy [q \<leftarrow> PRIMES. q \<noteq> prime] ts" by blast
  from t have "\<forall>t \<in> set ts. clean [q \<leftarrow> PRIMES. q \<noteq> prime] t" by (simp add: tidy_def list_all_iff)
  with set_render_clean [OF PRIMES_nonneg] have r: "\<forall>t \<in> set ts. set (render t) \<subseteq> set ''0123456789+-*()''"
    by blast
  have "set s = (\<Union>t \<in> set ts. set (render t))" by (simp add: s join_reversed_def)
  with r have sub: "set s \<subseteq> set ''0123456789+-*()''" by blast
  have "CHR ''/'' \<notin> set ''0123456789+-*()''" by simp
  with sub show ?thesis by blast
qed

text \<open>An instance: the target 0 with 97 excluded is the expression \<open>1-1\<close>.\<close>

theorem no_division_in_output_witness:
  "find_expression 0 PRIMES 97 = Some (Inr (''1-1'', 2))
   \<and> set ''1-1'' \<subseteq> set ''0123456789+-*()'' \<and> CHR ''/'' \<notin> set ''1-1''"
proof -
  have "find_expression 0 PRIMES 97 = Some (Inr (''1-1'', 2))"
    by (simp add: find_expression_def py_get_PRIMES_0 str_1)
  with no_division_in_output [of 0 97 "''1-1''" 2] show ?thesis by simp
qed

section \<open>The inner loops end\<close>

lemma candidate_ok_record:
  "list_all (candidate_ok p current bound) (snd sr) \<Longrightarrow> candidate_ok p current bound (c, quot, rem) \<Longrightarrow>
     list_all (candidate_ok p current bound) (snd (record_candidate c quot rem sr))"
  by (cases sr) (auto simp: record_candidate_def list_all_heappush split: option.splits)

lemma under_loop_returns:
  assumes p: "0 < p"
  shows "p * quot + rem = current \<Longrightarrow> 0 \<le> rem \<Longrightarrow> list_all (candidate_ok p current bound) (snd sr) \<Longrightarrow>
         \<exists>sr'. under_loop p cnt bound ps unreachable sr quot rem = Some sr' \<and>
               list_all (candidate_ok p current bound) (snd sr')"
proof (induction "nat (\<lfloor>bound\<rfloor> + 1 - rem)" arbitrary: sr quot rem rule: less_induct)
  case less
  show ?case
  proof (cases "of_int rem \<le> bound")
    case False
    with less.prems show ?thesis by (subst under_loop.simps) simp
  next
    case True
    then have r: "rem \<le> \<lfloor>bound\<rfloor>" by (simp add: le_floor_iff)
    define c where "c = (if rem \<noteq> 0 then cnt + rem_cost rem ps unreachable else cnt)"
    have ok: "candidate_ok p current bound (c, quot, rem)"
      using less.prems True by (simp add: candidate_ok_def)
    have "\<exists>sr'. under_loop p cnt bound ps unreachable (record_candidate c quot rem sr) (quot - 1) (rem + p) = Some sr' \<and>
               list_all (candidate_ok p current bound) (snd sr')"
    proof (rule less.hyps)
      show "nat (\<lfloor>bound\<rfloor> + 1 - (rem + p)) < nat (\<lfloor>bound\<rfloor> + 1 - rem)" using p r by simp
      show "p * (quot - 1) + (rem + p) = current" using less.prems(1) by (simp add: algebra_simps)
      show "0 \<le> rem + p" using p less.prems(2) by simp
      show "list_all (candidate_ok p current bound) (snd (record_candidate c quot rem sr))"
        using less.prems(3) ok by (rule candidate_ok_record)
    qed
    with True show ?thesis by (subst under_loop.simps) (simp add: c_def)
  qed
qed

lemma over_loop_returns:
  assumes p: "0 < p"
  shows "p * quot - rem = current \<Longrightarrow> 0 \<le> rem \<Longrightarrow> list_all (candidate_ok p current bound) (snd sr) \<Longrightarrow>
         \<exists>sr'. over_loop p cnt bound ps unreachable sr quot rem = Some sr' \<and>
               list_all (candidate_ok p current bound) (snd sr')"
proof (induction "nat (\<lfloor>bound\<rfloor> + 1 - rem)" arbitrary: sr quot rem rule: less_induct)
  case less
  show ?case
  proof (cases "of_int rem \<le> bound")
    case False
    with less.prems show ?thesis by (subst over_loop.simps) simp
  next
    case True
    then have r: "rem \<le> \<lfloor>bound\<rfloor>" by (simp add: le_floor_iff)
    define c where "c = cnt + rem_cost rem ps unreachable"
    have ok: "candidate_ok p current bound (c, quot, rem)"
      using less.prems True by (simp add: candidate_ok_def)
    have "\<exists>sr'. over_loop p cnt bound ps unreachable (record_candidate c quot rem sr) (quot + 1) (rem + p) = Some sr' \<and>
               list_all (candidate_ok p current bound) (snd sr')"
    proof (rule less.hyps)
      show "nat (\<lfloor>bound\<rfloor> + 1 - (rem + p)) < nat (\<lfloor>bound\<rfloor> + 1 - rem)" using p r by simp
      show "p * (quot + 1) - (rem + p) = current" using less.prems(1) by (simp add: algebra_simps)
      show "0 \<le> rem + p" using p less.prems(2) by simp
      show "list_all (candidate_ok p current bound) (snd (record_candidate c quot rem sr))"
        using less.prems(3) ok by (rule candidate_ok_record)
    qed
    with True show ?thesis by (subst over_loop.simps) (simp add: c_def)
  qed
qed

lemma get_possible_remainders_returns:
  assumes p: "0 < p"
  shows "\<exists>seen' remainders.
           get_possible_remainders p current cnt bound ps seen unreachable = Some (Inr (seen', remainders)) \<and>
           list_all (candidate_ok p current bound) remainders"
proof -
  have "p * (current div p) + current mod p = current" by simp
  moreover have "0 \<le> current mod p" using p by simp
  ultimately obtain sr where
    u: "under_loop p cnt bound ps unreachable (seen, []) (current div p) (current mod p) = Some sr" and
    ok: "list_all (candidate_ok p current bound) (snd sr)"
    using under_loop_returns [OF p, of "current div p" "current mod p" current bound "(seen, [])" cnt ps unreachable]
    by auto
  have "p * (current div p + 1) - (p - current mod p) = current" by (simp add: algebra_simps)
  moreover have "current mod p < p" using p by (rule pos_mod_bound)
  then have "0 \<le> p - current mod p" by simp
  ultimately obtain sr' where
    o: "over_loop p cnt bound ps unreachable sr (current div p + 1) (p - current mod p) = Some sr'" and
    ok': "list_all (candidate_ok p current bound) (snd sr')"
    using over_loop_returns [OF p _ _ ok, of "current div p + 1" "p - current mod p" cnt ps unreachable]
    by auto
  from p u o ok' show ?thesis by (cases sr') (simp add: get_possible_remainders_def)
qed

lemma estimation_loop_returns:
  "2 \<le> M \<Longrightarrow> \<exists>k. estimation_loop M x c = Some (Inr k)"
proof (induction "nat x" arbitrary: x c rule: less_induct)
  case less
  show ?case
  proof (cases "x > M")
    case False
    then show ?thesis by (subst estimation_loop.simps) simp
  next
    case True
    with less.prems have "nat (x div M) < nat x"
      by (simp add: nat_less_iff int_div_less_self)
    from less.hyps [OF this less.prems, of "c + 1"] True less.prems show ?thesis
      by (subst estimation_loop.simps) simp
  qed
qed

lemma estimation_returns: "\<exists>k. estimation n PRIMES prime = Some (Inr k)"
  using estimation_loop_returns [of 97 n 0] estimation_loop_returns [of 89 n 0]
  by (simp add: estimation_def py_get_PRIMES_last py_get_PRIMES_last2)

section \<open>The greedy loop ends\<close>

lemma random_round_step:
  assumes inv: "random_inv ps s"
  shows "\<exists>fin s'. random_round primes prime ps unreachable s = Inr (fin, s') \<and>
                  (\<not> fin \<longrightarrow> random_key s' < random_key s)"
proof -
  have "case random_round primes prime ps unreachable s of
          Inl e \<Rightarrow> False
        | Inr (fin, s') \<Rightarrow> \<not> fin \<longrightarrow> random_key s' < random_key s"
  proof -
  from inv obtain es n where e: "rs_expression s = es @ [Lit n]"
    and n: "MIN_NON_DECOMPOSABLE \<le> n"
    by (cases "rs_expression s" rule: rev_cases) (auto simp: random_inv_def split: token.splits)
  from inv have d: "2 \<le> rs_div s" "rs_div s \<le> MIN_NON_DECOMPOSABLE"
    by (auto simp: random_inv_def)
  from d have z: "rs_div s \<noteq> 0" by simp
  from d n have nlt: "\<not> n < rs_div s" by simp
  from n d have "n div rs_div s < n"
    by (intro int_div_less_self) (simp_all add: MIN_NON_DECOMPOSABLE_def)
  with n have k: "nat (n div rs_div s) < nat n" by (simp add: MIN_NON_DECOMPOSABLE_def)
  show ?thesis
    using k
    by (cases "n mod rs_div s = 0"; cases "n mod rs_div s \<in> set ps";
        cases "n div rs_div s = 1"; cases "n div rs_div s \<in> set ps";
        cases "n div rs_div s < MIN_NON_DECOMPOSABLE";
        simp add: random_round_def py_pop_def e nlt z Let_def random_key_def case_prod_beta)
  qed
  then show ?thesis by (auto split: sum.splits)
qed

lemma random_loop_returns:
  "random_inv ps s \<Longrightarrow> \<exists>e c. random_loop primes prime ps unreachable s = Some (Inr (e, c))"
proof (induction "random_key s" arbitrary: s rule: less_induct)
  case less
  from random_round_step [OF less.prems, of primes prime unreachable] obtain fin s' where
    r: "random_round primes prime ps unreachable s = Inr (fin, s')" and
    k: "\<not> fin \<longrightarrow> random_key s' < random_key s" by blast
  show ?case
  proof (cases fin)
    case True
    with r show ?thesis by (subst random_loop.simps) simp
  next
    case False
    with random_round_inv [OF less.prems r] have "random_inv ps s'" by simp
    from less.hyps [OF _ this] k False
    obtain e c where "random_loop primes prime ps unreachable s' = Some (Inr (e, c))" by blast
    with r False show ?thesis by (subst random_loop.simps) simp
  qed
qed

lemma find_random_solution_returns:
  assumes "MIN_NON_DECOMPOSABLE \<le> n"
  shows "\<exists>e c. find_random_solution n PRIMES prime (int (length PRIMES) - 1)
                 [p \<leftarrow> PRIMES. p \<noteq> prime] unreachable = Some (Inr (e, c))"
proof -
  define dv :: int where "dv = (if prime \<noteq> 97 then 97 else 89)"
  define s where "s = \<lparr>rs_expression = [Lit n], rs_index = 25, rs_div = dv, rs_count = 1, rs_depth = 0\<rparr>"
  have "dv \<in> set [p \<leftarrow> PRIMES. p \<noteq> prime]" by (simp add: dv_def PRIMES_def)
  with assms have "random_inv [p \<leftarrow> PRIMES. p \<noteq> prime] s"
    by (simp add: random_inv_def s_def tidy_Nil dv_def MIN_NON_DECOMPOSABLE_def)
  from random_loop_returns [OF this, of PRIMES prime unreachable] show ?thesis
    by (auto simp: find_random_solution_def length_PRIMES py_get_PRIMES_25 py_get_PRIMES_24 s_def dv_def)
qed

section \<open>The search ends\<close>

lemma pending_new_result: "pending (new_result e c st) = pending st"
  by (simp add: pending_def new_result_def)

lemma pending_seen: "pending (st\<lparr>st_seen := seen\<rparr>) = pending st"
  by (simp add: pending_def)

lemma pending_push:
  "pending (st\<lparr>st_queue := heappush node_lt (st_queue st) node\<rparr>) = add_mset (node_key node) (pending st)"
  by (simp add: pending_def mset_heappush)

lemma pending_pop:
  "heappop node_lt (st_queue st) = Inr (node, queue') \<Longrightarrow>
     pending st = add_mset (node_key node) (pending (st\<lparr>st_queue := queue'\<rparr>))"
  by (drule mset_heappop) (simp add: pending_def)

lemma queue_ok_new_result: "queue_ok (new_result e c st) = queue_ok st"
  by (simp add: queue_ok_def new_result_def)

lemma queue_ok_seen: "queue_ok (st\<lparr>st_seen := seen\<rparr>) = queue_ok st"
  by (simp add: queue_ok_def)

lemma queue_ok_push:
  "queue_ok (st\<lparr>st_queue := heappush node_lt (st_queue st) node\<rparr>) =
     (node_expression node \<noteq> [] \<and> is_lit (last (node_expression node)) \<and> queue_ok st)"
  by (simp add: queue_ok_def list_all_heappush)

lemma progress_refl: "progress st current (Some (Inr st))"
  by (simp add: progress_def)

lemma progress_result: "progress st current (Some (Inr (new_result e c st)))"
  by (simp add: progress_def pending_new_result queue_ok_new_result)

lemma progress_push_node:
  assumes "pending st' = pending st" and "queue_ok st \<longrightarrow> queue_ok st'"
    and "node_key node < nat current"
    and "node_expression node \<noteq> []" and "is_lit (last (node_expression node))"
  shows "progress st current (Some (Inr (st'\<lparr>st_queue := heappush node_lt (st_queue st') node\<rparr>)))"
proof -
  have "pending (st'\<lparr>st_queue := heappush node_lt (st_queue st') node\<rparr>) = pending st + {#node_key node#}"
    by (simp add: pending_push assms(1))
  moreover have "\<forall>q \<in># {#node_key node#}. q < nat current" using assms(3) by simp
  ultimately have "\<exists>K. pending (st'\<lparr>st_queue := heappush node_lt (st_queue st') node\<rparr>) = pending st + K \<and>
                      (\<forall>q \<in># K. q < nat current)" by blast
  with assms(2,4,5) show ?thesis by (simp add: progress_def queue_ok_push)
qed

lemma progress_seen: "progress (st\<lparr>st_seen := seen\<rparr>) current r = progress st current r"
  by (auto simp: progress_def pending_seen queue_ok_seen split: option.splits sum.splits)

lemma progress_trans:
  assumes "progress st current (Some (Inr st1))" and "progress st1 current r"
  shows "progress st current r"
proof (cases r)
  case None
  with assms(2) show ?thesis by (simp add: progress_def)
next
  case (Some x)
  show ?thesis
  proof (cases x)
    case (Inl e)
    with Some assms(2) show ?thesis by (simp add: progress_def)
  next
    case (Inr st')
    from assms(1) obtain K1 where k1: "pending st1 = pending st + K1" "\<forall>q \<in># K1. q < nat current"
      and q1: "queue_ok st \<longrightarrow> queue_ok st1"
      by (auto simp: progress_def)
    from assms(2) Some Inr obtain K2 where k2: "pending st' = pending st1 + K2" "\<forall>q \<in># K2. q < nat current"
      and q2: "queue_ok st1 \<longrightarrow> queue_ok st'"
      by (auto simp: progress_def)
    from k1 k2 have "pending st' = pending st + (K1 + K2)" "\<forall>q \<in># K1 + K2. q < nat current"
      by auto
    then have "\<exists>K. pending st' = pending st + K \<and> (\<forall>q \<in># K. q < nat current)" by blast
    with q1 q2 show ?thesis unfolding progress_def Some Inr by simp
  qed
qed

lemma extend_expression_nonempty:
  "extend_expression ps unreachable p current expression quot rem \<noteq> []"
  by (simp add: extend_expression_def Let_def)

lemma extend_expression_ends:
  "quot \<noteq> 1 \<Longrightarrow> last (extend_expression ps unreachable p current expression quot rem) = Lit quot"
  by (simp add: extend_expression_def Let_def)

lemma quotient_smaller:
  assumes "candidate_ok p current bound (c, quot, rem)" and "2 \<le> p"
    and "\<forall>r. of_int r \<le> bound \<longrightarrow> r < MIN_NON_DECOMPOSABLE" and "MIN_NON_DECOMPOSABLE \<le> quot"
  shows "nat quot < nat current"
proof -
  from assms(1,3) have r: "0 \<le> rem" "rem < MIN_NON_DECOMPOSABLE" and
    e: "p * quot + rem = current \<or> p * quot - rem = current"
    by (auto simp: candidate_ok_def)
  from assms(4) have q: "0 \<le> quot" by (simp add: MIN_NON_DECOMPOSABLE_def)
  define X where "X = p * quot"
  from q assms(2) have "2 * quot \<le> X" unfolding X_def by (intro mult_right_mono) auto
  moreover from e have "X + rem = current \<or> X - rem = current" by (simp add: X_def)
  ultimately have "quot < current" using r assms(4) unfolding MIN_NON_DECOMPOSABLE_def by linarith
  with q show ?thesis by simp
qed

lemma heappop_nonempty: "heap \<noteq> [] \<Longrightarrow> \<exists>x heap'. heappop lt heap = Inr (x, heap')"
  by (simp add: heappop_def Let_def)

lemma process_candidate_progress:
  assumes ps: "ps = [q \<leftarrow> PRIMES. q \<noteq> prime]" and p: "2 \<le> p"
    and ok: "candidate_ok p current bound cand"
    and b: "\<forall>r. of_int r \<le> bound \<longrightarrow> r < MIN_NON_DECOMPOSABLE"
  shows "progress st current
           (process_candidate PRIMES prime ps unreachable p current expression depth cand st)"
proof -
  obtain nc0 quot rem where cand: "cand = (nc0, quot, rem)" by (cases cand)
  let ?ne = "extend_expression ps unreachable p current expression quot rem"
  let ?nc = "if quot \<noteq> 1 then nc0 + 1 else nc0"
  show ?thesis
  proof (cases "pruned ?nc st \<or> quot = 1 \<or> quot \<in> set ps \<or> quot < MIN_NON_DECOMPOSABLE")
    case True
    then show ?thesis
      by (auto simp: process_candidate_def cand Let_def progress_result progress_refl
          split: prod.splits)
  next
    case False
    then have q: "MIN_NON_DECOMPOSABLE \<le> quot" and q1: "quot \<noteq> 1" by auto
    from quotient_smaller [OF ok [unfolded cand] p b q] have lt: "nat quot < nat current" .
    obtain k where est: "estimation quot PRIMES prime = Some (Inr k)"
      using estimation_returns by blast
    obtain expr mc0 where frs:
      "find_random_solution quot PRIMES prime (int (length PRIMES) - 1) ps unreachable = Some (Inr (expr, mc0))"
      using find_random_solution_returns [OF q] unfolding ps by blast
    have key: "node_key \<lparr>node_expression = ?ne, node_depth = d, node_count = c, node_min = m\<rparr> = nat quot"
      for d c m
      by (simp add: node_key_def extend_expression_ends [OF q1])
    from False est frs q1 lt show ?thesis
      by (auto simp: process_candidate_def cand Let_def key pending_new_result queue_ok_new_result
          progress_refl progress_push_node extend_expression_ends extend_expression_nonempty)
  qed
qed

lemma process_remainders_progress:
  assumes ps: "ps = [q \<leftarrow> PRIMES. q \<noteq> prime]" and p: "2 \<le> p"
    and b: "\<forall>r. of_int r \<le> bound \<longrightarrow> r < MIN_NON_DECOMPOSABLE"
  shows "list_all (candidate_ok p current bound) remainders \<Longrightarrow>
         progress st current
           (process_remainders PRIMES prime ps unreachable p current expression depth remainders st)"
proof (induction "length remainders" arbitrary: remainders st rule: less_induct)
  case less
  show ?case
  proof (cases "remainders = []")
    case True
    then show ?thesis by (subst process_remainders.simps) (simp add: progress_refl)
  next
    case False
    from heappop_nonempty [OF this]
    obtain cand rest where pop: "heappop tuple_lt remainders = Inr (cand, rest)" by blast
    from list_all_heappop [OF pop, of "candidate_ok p current bound"] less.prems
    have c: "candidate_ok p current bound cand" and r: "list_all (candidate_ok p current bound) rest"
      by auto
    from process_candidate_progress [OF ps p c b, of st unreachable expression depth]
    have pc: "progress st current
                (process_candidate PRIMES prime ps unreachable p current expression depth cand st)" .
    show ?thesis
    proof (cases "process_candidate PRIMES prime ps unreachable p current expression depth cand st")
      case None
      with pc show ?thesis by (simp add: progress_def)
    next
      case (Some x)
      show ?thesis
      proof (cases x)
        case (Inl e)
        with Some pc show ?thesis by (simp add: progress_def)
      next
        case (Inr st1)
        from less.hyps [OF length_heappop [OF pop] r, of st1]
        have "progress st1 current
                (process_remainders PRIMES prime ps unreachable p current expression depth rest st1)" .
        with pc [unfolded Some Inr]
        have "progress st current
                (process_remainders PRIMES prime ps unreachable p current expression depth rest st1)"
          by (rule progress_trans)
        with Some Inr False pop show ?thesis
          by (subst process_remainders.simps) simp
      qed
    qed
  qed
qed

lemma hd_PRIMES: "hd PRIMES = 1"
  by (simp add: PRIMES_def)

lemma last_PRIMES: "last PRIMES = 97"
  by (simp add: PRIMES_def)

lemma remainders_bound_small:
  assumes "p \<le> 97" and "of_int r \<le> get_remainders_bound p (last PRIMES) MIN_NON_DECOMPOSABLE"
  shows "r < MIN_NON_DECOMPOSABLE"
proof -
  from assms(2) have "(of_int r :: rat) \<le> of_int ((p - 1) * 269 + (97 - (p - 1)) * 97) / of_int 97"
    by (simp add: get_remainders_bound_def hd_PRIMES last_PRIMES MIN_NON_DECOMPOSABLE_def Let_def)
  then have "(of_int r :: rat) * of_int 97 \<le> of_int ((p - 1) * 269 + (97 - (p - 1)) * 97)"
    by (simp add: pos_le_divide_eq)
  then have "(of_int (r * 97) :: rat) \<le> of_int ((p - 1) * 269 + (97 - (p - 1)) * 97)"
    by simp
  then have "r * 97 \<le> (p - 1) * 269 + (97 - (p - 1)) * 97" by (simp only: of_int_le_iff)
  with assms(1) show ?thesis by (simp add: MIN_NON_DECOMPOSABLE_def algebra_simps)
qed

lemma try_prime_progress:
  assumes ps: "ps = [q \<leftarrow> PRIMES. q \<noteq> prime]" and p: "p \<in> set PRIMES"
  shows "progress st current
           (try_prime PRIMES prime ps unreachable current expression depth cnt p st)"
proof (cases "p = prime \<or> p = 1 \<or> p > current")
  case True
  then show ?thesis by (auto simp: try_prime_def progress_refl)
next
  case False
  with p have p2: "2 \<le> p" and p97: "p \<le> 97" by (auto simp: PRIMES_def)
  let ?bound = "get_remainders_bound p (last PRIMES) MIN_NON_DECOMPOSABLE"
  from p2 have "0 < p" by simp
  from get_possible_remainders_returns [OF this, of current cnt ?bound ps "st_seen st" unreachable]
  obtain seen' remainders where
    g: "get_possible_remainders p current cnt ?bound ps (st_seen st) unreachable = Some (Inr (seen', remainders))" and
    ok: "list_all (candidate_ok p current ?bound) remainders" by blast
  have b: "\<forall>r. of_int r \<le> ?bound \<longrightarrow> r < MIN_NON_DECOMPOSABLE"
    using remainders_bound_small [OF p97] by blast
  from process_remainders_progress [OF ps p2 b ok, of "st\<lparr>st_seen := seen'\<rparr>" unreachable expression depth]
  have "progress (st\<lparr>st_seen := seen'\<rparr>) current
          (process_remainders PRIMES prime ps unreachable p current expression depth remainders
             (st\<lparr>st_seen := seen'\<rparr>))" .
  then have "progress st current
          (process_remainders PRIMES prime ps unreachable p current expression depth remainders
             (st\<lparr>st_seen := seen'\<rparr>))"
    by (simp only: progress_seen)
  with False g show ?thesis by (simp add: try_prime_def Let_def)
qed

lemma for_primes_progress:
  assumes ps: "ps = [q \<leftarrow> PRIMES. q \<noteq> prime]"
  shows "set qs \<subseteq> set PRIMES \<Longrightarrow>
         progress st current
           (for_primes PRIMES prime ps unreachable current expression depth cnt qs st)"
proof (induction qs arbitrary: st)
  case Nil
  then show ?case by (simp add: progress_refl)
next
  case (Cons q qs)
  then have q: "q \<in> set PRIMES" and qs: "set qs \<subseteq> set PRIMES" by auto
  from try_prime_progress [OF ps q, of st current unreachable expression depth cnt]
  have t: "progress st current
             (try_prime PRIMES prime ps unreachable current expression depth cnt q st)" .
  show ?case
  proof (cases "try_prime PRIMES prime ps unreachable current expression depth cnt q st")
    case None
    with t show ?thesis by (simp add: progress_def)
  next
    case (Some x)
    show ?thesis
    proof (cases x)
      case (Inl e)
      with Some t show ?thesis by (simp add: progress_def)
    next
      case (Inr st1)
      from t [unfolded Some Inr] Cons.IH [OF qs, of st1]
      have "progress st current
              (for_primes PRIMES prime ps unreachable current expression depth cnt qs st1)"
        by (rule progress_trans)
      with Some Inr show ?thesis by simp
    qed
  qed
qed

lemma search_round_decreases:
  assumes ps: "ps = [q \<leftarrow> PRIMES. q \<noteq> prime]" and ne: "st_queue st \<noteq> []" and ok: "queue_ok st"
  shows "\<exists>st'. search_round PRIMES prime ps unreachable st = Some (Inr st') \<and> queue_ok st' \<and>
               (pending st', pending st) \<in> mult {(a, b). a < b}"
proof -
  from heappop_nonempty [OF ne]
  obtain node queue' where pop: "heappop node_lt (st_queue st) = Inr (node, queue')" by blast
  let ?st1 = "st\<lparr>st_queue := queue'\<rparr>"
  from pending_pop [OF pop] have p: "pending st = pending ?st1 + {#node_key node#}" by simp
  from list_all_heappop [OF pop, of "\<lambda>node. node_expression node \<noteq> [] \<and> is_lit (last (node_expression node))"] ok
  have n: "node_expression node \<noteq> []" "is_lit (last (node_expression node))" and ok1: "queue_ok ?st1"
    by (auto simp: queue_ok_def)
  from n obtain current where l: "last (node_expression node) = Lit current"
    by (cases "last (node_expression node)") auto
  then have key: "node_key node = nat current" by (simp add: node_key_def)
  have dec: "(pending st', pending st) \<in> mult {(a, b). a < b}"
    if "\<exists>K. pending st' = pending ?st1 + K \<and> (\<forall>q \<in># K. q < nat current)" for st'
  proof -
    from that obtain K where K: "pending st' = pending ?st1 + K" "\<forall>q \<in># K. q < nat current" by blast
    have "(pending ?st1 + K, pending ?st1 + {#node_key node#}) \<in> mult {(a, b). a < b}"
      using K(2) by (intro one_step_implies_mult) (auto simp: key)
    with K(1) p show ?thesis by simp
  qed
  from for_primes_progress [OF ps order_refl, of ?st1 current unreachable "butlast (node_expression node)"
      "node_depth node" "node_count node"]
  have f: "progress ?st1 current
             (for_primes PRIMES prime ps unreachable current (butlast (node_expression node))
                (node_depth node) (node_count node) PRIMES ?st1)" .
  have same: "(pending ?st1, pending st) \<in> mult {(a, b). a < b}"
    by (rule dec) (simp add: exI [of _ "{#}"])
  show ?thesis
  proof (cases "pruned (node_count node) ?st1 \<or>
                (case st_seen ?st1 current of None \<Rightarrow> False | Some c \<Rightarrow> node_count node - 1 > c)")
    case True
    with pop n l ok1 same show ?thesis
      by (auto simp: search_round_def Let_def py_pop_def)
  next
    case False
    from f obtain st' where
      r: "for_primes PRIMES prime ps unreachable current (butlast (node_expression node))
            (node_depth node) (node_count node) PRIMES ?st1 = Some (Inr st')" and
      k: "\<exists>K. pending st' = pending ?st1 + K \<and> (\<forall>q \<in># K. q < nat current)" and
      q: "queue_ok st'"
      using ok1 by (auto simp: progress_def split: option.splits sum.splits)
    from False pop n l r have "search_round PRIMES prime ps unreachable st = Some (Inr st')"
      by (auto simp: search_round_def Let_def py_pop_def)
    with dec [OF k] q show ?thesis by blast
  qed
qed

lemma search_loop_returns:
  assumes ps: "ps = [q \<leftarrow> PRIMES. q \<noteq> prime]"
  shows "queue_ok st \<Longrightarrow> \<exists>st'. search_loop PRIMES prime ps unreachable st = Some (Inr st')"
proof (induction st rule: wf_induct_rule [OF wf_inv_image [OF wf_mult [OF wf_less], of pending]])
  case (1 st)
  show ?case
  proof (cases "st_queue st = []")
    case True
    then show ?thesis by (subst search_loop.simps) simp
  next
    case False
    from search_round_decreases [OF ps False 1(2), of unreachable] obtain st1 where
      r: "search_round PRIMES prime ps unreachable st = Some (Inr st1)" and q: "queue_ok st1" and
      d: "(pending st1, pending st) \<in> mult {(a, b). a < b}" by blast
    from d have "(st1, st) \<in> inv_image (mult {(a, b). a < b}) pending" by simp
    from 1(1) [OF this q] obtain st' where "search_loop PRIMES prime ps unreachable st1 = Some (Inr st')"
      by blast
    with False r show ?thesis by (subst search_loop.simps) simp
  qed
qed

text \<open>
  Claim C7: \<open>find_expression\<close> returns for every target and every excluded number, and
  when the excluded number is an entry of \<open>PRIMES\<close> it returns an expression and a count
  and raises nothing: the loop over the queue ends, since every round replaces the number
  of one node by smaller numbers. The greedy loop of \<open>find_random_solution\<close> returns too
  for every number it is given, that is for every number not below the threshold 269.
\<close>

theorem search_terminates:
  "(\<exists>r. find_expression n PRIMES prime = Some r)
   \<and> (prime \<in> set PRIMES \<longrightarrow> (\<exists>s c. find_expression n PRIMES prime = Some (Inr (s, c))))
   \<and> (MIN_NON_DECOMPOSABLE \<le> m \<longrightarrow>
        (\<exists>e c. find_random_solution m PRIMES prime (int (length PRIMES) - 1)
                  [p \<leftarrow> PRIMES. p \<noteq> prime] unreachable = Some (Inr (e, c))))"
proof -
  let ?ps = "[q \<leftarrow> PRIMES. q \<noteq> prime]"
  let ?st0 = "\<lparr>st_queue = [\<lparr>node_expression = [Lit n], node_depth = 1, node_count = 1, node_min = 1\<rparr>],
               st_seen = Map.empty, st_expression_result = [],
               st_operand_count_result = n + 1, st_valid_result = False\<rparr>"
  have "queue_ok ?st0" by (simp add: queue_ok_def)
  from search_loop_returns [OF refl this, of prime]
  have l: "\<exists>st'. search_loop PRIMES prime ?ps u ?st0 = Some (Inr st')" for u .
  have a: "\<exists>s c. find_expression n PRIMES prime = Some (Inr (s, c))" if "prime \<in> set PRIMES"
  proof -
    from l [of "unreachable_without prime"] obtain st' where
      "search_loop PRIMES prime ?ps (unreachable_without prime) ?st0 = Some (Inr st')" by blast
    with that show ?thesis
      by (auto simp: find_expression_def py_get_PRIMES_0 py_get_PRIMES_1 UNREACHABLE_eq Let_def
          split: prod.splits)
  qed
  have b: "\<exists>r. find_expression n PRIMES prime = Some r"
  proof (cases "prime \<in> set PRIMES")
    case True
    with a show ?thesis by blast
  next
    case False
    then show ?thesis
      by (auto simp: find_expression_def py_get_PRIMES_0 py_get_PRIMES_1 UNREACHABLE_eq Let_def)
  qed
  from a b find_random_solution_returns [of m prime unreachable] show ?thesis by blast
qed

text \<open>An instance: the target 1000 without 97, and the greedy solution of 1000.\<close>

theorem search_terminates_witness:
  "(97 :: int) \<in> set PRIMES \<and> MIN_NON_DECOMPOSABLE \<le> 1000
   \<and> (\<exists>s c. find_expression 1000 PRIMES 97 = Some (Inr (s, c)))
   \<and> (\<exists>e c. find_random_solution 1000 PRIMES 97 (int (length PRIMES) - 1)
                [p \<leftarrow> PRIMES. p \<noteq> 97] (unreachable_without 97) = Some (Inr (e, c)))"
  using search_terminates [of 1000 97 1000 "unreachable_without 97"]
  by (simp add: MIN_NON_DECOMPOSABLE_def PRIMES_def)

end
